theory Spec2Isabelle
  imports Main
begin

section \<open>The atom tree\<close>

text \<open>
  The navigation commands of \<^verbatim>\<open>src/editor-model/commands.ts\<close> work on a tree of atoms
  and on a cursor that is an offset into the flattening of that tree. The classes
  \<^verbatim>\<open>Atom\<close> and \<^verbatim>\<open>ModelPrivate\<close> are imported by the file and not part of it; the
  definitions of this section are their model, each marked as such.
\<close>

datatype branchName = Above | Body | Below | Superscript | Subscript

text \<open>The class of an atom object: what the source tests with \<^verbatim>\<open>instanceof\<close>.\<close>

datatype atomClass = PlainAtom | TextAtom | CommandAtom | SubsupAtom

text \<open>
  The fields of an atom that the commands read. \<open>limits\<close> is the empty string where the
  field is undefined.
\<close>

record ainfo =
  atype :: string
  amode :: string
  avalue :: string
  aclass :: atomClass
  baseType :: string
  limits :: string
  captureSelection :: bool
  skipBoundary :: bool
  isSuggestion :: bool

text \<open>
  Modelled from the spec: the class \<^verbatim>\<open>Atom\<close> (core/atom) is missing. An atom owns, for
  each branch name, an ordered list of children. A branch that exists starts with its
  \<^verbatim>\<open>first\<close> sentinel, so it is never the empty list: the empty list stands for a
  branch that does not exist. A tree of this type has no cycle and no shared node.
\<close>

datatype atom =
  Atom (info: ainfo) (aboveB: "atom list") (bodyB: "atom list") (belowB: "atom list")
    (superscriptB: "atom list") (subscriptB: "atom list")

fun branchList :: "atom \<Rightarrow> branchName \<Rightarrow> atom list" where
  "branchList t Above = aboveB t"
| "branchList t Body = bodyB t"
| "branchList t Below = belowB t"
| "branchList t Superscript = superscriptB t"
| "branchList t Subscript = subscriptB t"

text \<open>
  An atom object is referred to by its place in the tree: the branch names and sibling
  indices on the way down from the root. The root is the empty path.
\<close>

type_synonym aref = "(branchName \<times> nat) list"

fun getAtom :: "atom \<Rightarrow> aref \<Rightarrow> atom option" where
  "getAtom t [] = Some t"
| "getAtom t ((b, k) # p) =
     (if k < length (branchList t b) then getAtom (branchList t b ! k) p else None)"

text \<open>
  Modelled from the spec: \<^verbatim>\<open>Atom.children\<close> is missing. The flattening is depth first
  and in branch order; every atom of every branch, its \<^verbatim>\<open>first\<close> sentinel included,
  takes one slot, after the slots of its own descendants. The root has no slot.
\<close>

fun children :: "atom \<Rightarrow> aref list"
  and branchChildren :: "branchName \<Rightarrow> nat \<Rightarrow> atom list \<Rightarrow> aref list" where
  "children (Atom i a bo be su sb) =
     branchChildren Above 0 a @ branchChildren Body 0 bo @ branchChildren Below 0 be @
     branchChildren Superscript 0 su @ branchChildren Subscript 0 sb"
| "branchChildren b k [] = []"
| "branchChildren b k (x # xs) =
     map ((#) (b, k)) (children x) @ [[(b, k)]] @ branchChildren b (Suc k) xs"

section \<open>The model: tree, cursor, notifications\<close>

type_synonym announcement = "string \<times> int option"

record model =
  root :: atom
  position :: int
  anchor :: int
  suppressChangeNotifications :: bool
  announced :: "announcement list"

datatype direction = Forward | Backward | Upward | Downward

datatype error = TypeError

definition atoms :: "model \<Rightarrow> aref list" where
  "atoms m = children (root m)"

text \<open>Modelled from the spec: \<^verbatim>\<open>lastOffset\<close> is the offset of the final atom.\<close>

definition lastOffset :: "model \<Rightarrow> int" where
  "lastOffset m = int (length (atoms m)) - 1"

text \<open>
  Modelled from the spec: \<^verbatim>\<open>at(offset)\<close> is the atom at that slot, undefined (here
  \<open>None\<close>) out of range.
\<close>

definition at :: "model \<Rightarrow> int \<Rightarrow> aref option" where
  "at m i = (if 0 \<le> i \<and> i < int (length (atoms m)) then Some (atoms m ! nat i) else None)"

fun indexOf :: "'a list \<Rightarrow> 'a \<Rightarrow> int" where
  "indexOf [] x = -1"
| "indexOf (y # ys) x = (if y = x then 0 else (let r = indexOf ys x in if r < 0 then r else r + 1))"

text \<open>
  Modelled from the spec: \<^verbatim>\<open>offsetOf(atom)\<close> is the inverse of \<^verbatim>\<open>at\<close>; for an atom
  that has no slot (the root, or no atom at all) it is \<open>-1\<close>, as \<^verbatim>\<open>Array.indexOf\<close>.
\<close>

definition offsetOf :: "model \<Rightarrow> aref option \<Rightarrow> int" where
  "offsetOf m a = (case a of None \<Rightarrow> -1 | Some p \<Rightarrow> indexOf (atoms m) p)"


subsection \<open>Structural queries on atoms\<close>

text \<open>
  Modelled from the spec: the getters of \<^verbatim>\<open>Atom\<close> (\<^verbatim>\<open>parent\<close>, \<^verbatim>\<open>treeBranch\<close>,
  \<^verbatim>\<open>leftSibling\<close>, \<^verbatim>\<open>rightSibling\<close>, \<^verbatim>\<open>isFirstSibling\<close>, \<^verbatim>\<open>isLastSibling\<close>,
  \<^verbatim>\<open>firstSibling\<close>, \<^verbatim>\<open>lastSibling\<close>, \<^verbatim>\<open>firstChild\<close>, \<^verbatim>\<open>lastChild\<close>) are missing.
  The root has no parent, no branch and no sibling.
\<close>

definition parent :: "aref \<Rightarrow> aref option" where
  "parent p = (if p = [] then None else Some (butlast p))"

definition treeBranch :: "aref \<Rightarrow> branchName option" where
  "treeBranch p = (if p = [] then None else Some (fst (last p)))"

definition sibIndex :: "aref \<Rightarrow> nat" where
  "sibIndex p = snd (last p)"

definition siblings :: "model \<Rightarrow> aref \<Rightarrow> atom list" where
  "siblings m p =
     (if p = [] then []
      else case getAtom (root m) (butlast p) of
             None \<Rightarrow> []
           | Some t \<Rightarrow> branchList t (fst (last p)))"

definition leftSibling :: "model \<Rightarrow> aref \<Rightarrow> aref option" where
  "leftSibling m p =
     (if p = [] \<or> sibIndex p = 0 then None
      else Some (butlast p @ [(fst (last p), sibIndex p - 1)]))"

definition rightSibling :: "model \<Rightarrow> aref \<Rightarrow> aref option" where
  "rightSibling m p =
     (if p \<noteq> [] \<and> Suc (sibIndex p) < length (siblings m p)
      then Some (butlast p @ [(fst (last p), Suc (sibIndex p))]) else None)"

definition isFirstSibling :: "model \<Rightarrow> aref \<Rightarrow> bool" where
  "isFirstSibling m p = (p \<noteq> [] \<and> sibIndex p = 0)"

definition isLastSibling :: "model \<Rightarrow> aref \<Rightarrow> bool" where
  "isLastSibling m p = (p \<noteq> [] \<and> Suc (sibIndex p) = length (siblings m p))"

definition firstSibling :: "model \<Rightarrow> aref \<Rightarrow> aref option" where
  "firstSibling m p = (if p = [] then None else Some (butlast p @ [(fst (last p), 0)]))"

definition lastSibling :: "model \<Rightarrow> aref \<Rightarrow> aref option" where
  "lastSibling m p =
     (if p = [] \<or> siblings m p = [] then None
      else Some (butlast p @ [(fst (last p), length (siblings m p) - 1)]))"

text \<open>The fields of the atom object a reference stands for.\<close>

definition fieldsOf :: "model \<Rightarrow> aref \<Rightarrow> ainfo" where
  "fieldsOf m p = info (the (getAtom (root m) p))"

definition subtree :: "model \<Rightarrow> aref \<Rightarrow> atom" where
  "subtree m p = the (getAtom (root m) p)"

definition firstChild :: "model \<Rightarrow> aref \<Rightarrow> aref option" where
  "firstChild m p =
     (case children (subtree m p) of [] \<Rightarrow> None | c # cs \<Rightarrow> Some (p @ c))"

definition lastChild :: "model \<Rightarrow> aref \<Rightarrow> aref option" where
  "lastChild m p =
     (case children (subtree m p) of [] \<Rightarrow> None | c # cs \<Rightarrow> Some (p @ last (c # cs)))"

text \<open>
  Modelled from the spec: \<^verbatim>\<open>Atom.branch(name)\<close> is the branch if it exists;
  \<^verbatim>\<open>hasEmptyBranch(name)\<close> holds of a branch that does not exist or holds its
  sentinel only.
\<close>

definition branch :: "model \<Rightarrow> aref \<Rightarrow> branchName \<Rightarrow> aref list option" where
  "branch m p b =
     (let xs = branchList (subtree m p) b
      in if xs = [] then None else Some (map (\<lambda>k. p @ [(b, k)]) [0..<length xs]))"

definition hasEmptyBranch :: "model \<Rightarrow> aref \<Rightarrow> branchName \<Rightarrow> bool" where
  "hasEmptyBranch m p b = (length (branchList (subtree m p) b) \<le> 1)"

subsection \<open>Cursor state and notifications\<close>

text \<open>Modelled from the spec: \<^verbatim>\<open>announce(kind, previousPosition?)\<close> is a sink; here a log.\<close>

definition announce :: "model \<Rightarrow> string \<Rightarrow> int option \<Rightarrow> model" where
  "announce m kind prev = m\<lparr>announced := announced m @ [(kind, prev)]\<rparr>"

text \<open>
  Modelled from the spec: \<^verbatim>\<open>setSelection(anchor, position)\<close>. Offsets outside
  \<open>[0, lastOffset]\<close> are rejected before the state is touched; the result tells whether
  the selection changed.
\<close>

definition setSelection :: "model \<Rightarrow> int \<Rightarrow> int \<Rightarrow> bool \<times> model" where
  "setSelection m a p =
     (if 0 \<le> a \<and> a \<le> lastOffset m \<and> 0 \<le> p \<and> p \<le> lastOffset m
      then (a \<noteq> anchor m \<or> p \<noteq> position m, m\<lparr>position := p, anchor := a\<rparr>)
      else (False, m))"

text \<open>
  Modelled from the spec: assigning \<^verbatim>\<open>position\<close> collapses the selection there. The
  offsets of the cursor stay in \<open>[0, lastOffset]\<close> at all times, so the assignment is
  the selection of the empty range at that offset, rejected like any other outside the
  document.
\<close>

definition setPosition :: "model \<Rightarrow> int \<Rightarrow> model" where
  "setPosition m v = snd (setSelection m v v)"

text \<open>
  Modelled from the spec: \<^verbatim>\<open>collapseSelection(direction)\<close> reports false on a
  selection that is collapsed already, and otherwise collapses it to its start
  (backward) or to its end (forward, the default): the cursor and the anchor both take
  the offset of that end.
\<close>

definition collapseSelection :: "model \<Rightarrow> direction \<Rightarrow> bool \<times> model" where
  "collapseSelection m d =
     (if anchor m = position m then (False, m)
      else (let v = (if d = Backward then min (anchor m) (position m)
                     else max (anchor m) (position m))
            in (True, m\<lparr>position := v, anchor := v\<rparr>)))"

text \<open>
  Modelled from the spec: a placeholder selection covers exactly one atom, and that atom
  is a placeholder.
\<close>

definition selectionIsPlaceholder :: "model \<Rightarrow> bool" where
  "selectionIsPlaceholder m =
     (abs (anchor m - position m) = 1 \<and>
      (case at m (max (anchor m) (position m)) of
         None \<Rightarrow> False
       | Some a \<Rightarrow> atype (fieldsOf m a) = ''placeholder''))"

subsection \<open>What the commands take from outside\<close>

text \<open>
  The collaborators of the file that the source does not hold, as parameters:
  the constant \<^verbatim>\<open>LETTER_AND_DIGITS\<close> (as its test), the hooks of the host, the option
  \<^verbatim>\<open>scriptDepth\<close> (subscript bound, superscript bound), \<^verbatim>\<open>extendSelection\<close> of the
  model, the clearing of a pending command suggestion
  (\<^verbatim>\<open>deleteRange(model, getCommandSuggestionRange(model))\<close>), \<^verbatim>\<open>getMode\<close>, and
  the focusable elements of the page with the one that has the focus. A hook is code
  of the host that is handed the model: its result here is its answer together with
  the model as the hook leaves it.
\<close>

record env =
  letterAndDigits :: "string \<Rightarrow> bool"
  moveOut :: "model \<Rightarrow> direction \<Rightarrow> bool \<times> model"
  tabOut :: "(model \<Rightarrow> direction \<Rightarrow> bool \<times> model) option"
  scriptDepth :: "nat \<times> nat"
  extendSelection :: "model \<Rightarrow> direction \<Rightarrow> bool \<times> model"
  clearSuggestion :: "model \<Rightarrow> model"
  getMode :: "model \<Rightarrow> int \<Rightarrow> string"
  tabbable :: "nat list"
  activeElement :: "nat option"

section \<open>The commands\<close>

subsection \<open>Character classes\<close>

definition charIn :: "nat \<Rightarrow> nat \<Rightarrow> char \<Rightarrow> bool" where
  "charIn lo hi c = (lo \<le> of_char c \<and> (of_char c :: nat) \<le> hi)"

text \<open>
  \<^verbatim>\<open>/\s/.test(v)\<close>. The class \<^verbatim>\<open>\s\<close> is the white space and the line terminators of
  ECMAScript: the characters 9 to 13 and 32 of ASCII, and U+00A0, U+1680, U+2000 to
  U+200A, U+2028, U+2029, U+202F, U+205F, U+3000 and U+FEFF. A string is the bytes of
  its UTF-8 form, so the characters beyond ASCII are the byte sequences below.
\<close>

definition unicodeSpaces :: "nat list list" where
  "unicodeSpaces =
     [[194, 160], [225, 154, 128], [226, 128, 168], [226, 128, 169], [226, 128, 175],
      [226, 129, 159], [227, 128, 128], [239, 187, 191]] @
     map (\<lambda>c. [226, 128, c]) [128..<139]"

definition startsWithSpace :: "nat list \<Rightarrow> bool" where
  "startsWithSpace bs =
     (case bs of
        [] \<Rightarrow> False
      | a # r \<Rightarrow> (9 \<le> a \<and> a \<le> 13) \<or> a = 32 \<or>
                 list_ex (\<lambda>s. take (length s) bs = s) unicodeSpaces)"

fun hasSpace :: "nat list \<Rightarrow> bool" where
  "hasSpace [] = False"
| "hasSpace (a # bs) = (startsWithSpace (a # bs) \<or> hasSpace bs)"

definition isSpace :: "string \<Rightarrow> bool" where
  "isSpace v = hasSpace (map of_char v)"


text \<open>\<^verbatim>\<open>/[a-zA-Z\*]/.test(v)\<close>\<close>

definition isLetterOrStar :: "string \<Rightarrow> bool" where
  "isLetterOrStar v = list_ex (\<lambda>c. charIn 97 122 c \<or> charIn 65 90 c \<or> c = CHR ''*'') v"

text \<open>
  An instance of the missing constant for the scenarios below: the letters and digits
  of ASCII.
\<close>

definition asciiLetterOrDigit :: "string \<Rightarrow> bool" where
  "asciiLetterOrDigit v = list_ex (\<lambda>c. charIn 97 122 c \<or> charIn 65 90 c \<or> charIn 48 57 c) v"



subsection \<open>wordBoundaryOffset\<close>

definition dirOf :: "direction \<Rightarrow> int" where
  "dirOf d = (if d = Backward then -1 else 1)"

text \<open>The three tests the loops of \<^verbatim>\<open>wordBoundaryOffset\<close> apply to the atom at \<open>i\<close>.\<close>

definition textAlnum :: "env \<Rightarrow> ainfo \<Rightarrow> bool" where
  "textAlnum e f = (amode f = ''text'' \<and> letterAndDigits e (avalue f))"

definition textSpace :: "ainfo \<Rightarrow> bool" where
  "textSpace f = (amode f = ''text'' \<and> isSpace (avalue f))"

definition textNonSpace :: "ainfo \<Rightarrow> bool" where
  "textNonSpace f = (amode f = ''text'' \<and> \<not> isSpace (avalue f))"

text \<open>
  Every loop of the file is a recursive function that also counts its iterations: the
  last argument is the count so far, and the result carries the final count, also when
  the walk ends in an exception.

  \<^verbatim>\<open>do { match = P(model.at(i)); i += dir; } while (model.at(i) && match);\<close>
  Reading a field of \<^verbatim>\<open>model.at(i)\<close> throws where there is no atom.
\<close>

type_synonym 'a walk = "(error + 'a) \<times> nat"

function doWhileAt ::
  "model \<Rightarrow> (ainfo \<Rightarrow> bool) \<Rightarrow> direction \<Rightarrow> int \<Rightarrow> nat \<Rightarrow> int walk" where
  "doWhileAt m P d i n =
     (case at m i of
        None \<Rightarrow> (Inl TypeError, n)
      | Some a \<Rightarrow>
          (if at m (i + dirOf d) \<noteq> None \<and> P (fieldsOf m a)
           then doWhileAt m P d (i + dirOf d) (Suc n)
           else (Inr (i + dirOf d), Suc n)))"
  by pat_completeness auto
termination
  by (relation "measure (\<lambda>(m, P, d, i, n).
        if d = Backward then nat (i + 1) else nat (int (length (atoms m)) - i))")
     (auto simp: at_def dirOf_def split: if_splits)

text \<open>\<^verbatim>\<open>while (model.at(i) && P(model.at(i))) { i += dir; }\<close>\<close>

function whileAt ::
  "model \<Rightarrow> (ainfo \<Rightarrow> bool) \<Rightarrow> direction \<Rightarrow> int \<Rightarrow> nat \<Rightarrow> int \<times> nat" where
  "whileAt m P d i n =
     (case at m i of
        None \<Rightarrow> (i, n)
      | Some a \<Rightarrow> (if P (fieldsOf m a) then whileAt m P d (i + dirOf d) (Suc n) else (i, n)))"
  by pat_completeness auto
termination
  by (relation "measure (\<lambda>(m, P, d, i, n).
        if d = Backward then nat (i + 1) else nat (int (length (atoms m)) - i))")
     (auto simp: at_def dirOf_def split: if_splits)

text \<open>
  \<^verbatim>\<open>while (model.at(i) && match) { match = P(model.at(i)); if (match) result = i; i += dir; }\<close>
  The variable \<^verbatim>\<open>result\<close> is assigned again right after the loop, so it is left out.
\<close>

function whileMatch ::
  "model \<Rightarrow> (ainfo \<Rightarrow> bool) \<Rightarrow> direction \<Rightarrow> int \<Rightarrow> bool \<Rightarrow> nat \<Rightarrow> int \<times> nat" where
  "whileMatch m P d i match n =
     (case at m i of
        None \<Rightarrow> (i, n)
      | Some a \<Rightarrow>
          (if match then whileMatch m P d (i + dirOf d) (P (fieldsOf m a)) (Suc n) else (i, n)))"
  by pat_completeness auto
termination
  by (relation "measure (\<lambda>(m, P, d, i, match, n).
        if d = Backward then nat (i + 1) else nat (int (length (atoms m)) - i))")
     (auto simp: at_def dirOf_def split: if_splits)

declare doWhileAt.simps [simp del] whileAt.simps [simp del] whileMatch.simps [simp del]

text \<open>
  \<^verbatim>\<open>result = model.at(i) ? i - 2 * dir : i - dir; return result - (dir > 0 ? 0 : 1);\<close>
\<close>

definition wordResult :: "model \<Rightarrow> direction \<Rightarrow> int \<Rightarrow> int" where
  "wordResult m d i =
     (if at m i \<noteq> None then i - 2 * dirOf d else i - dirOf d) - (if dirOf d > 0 then 0 else 1)"

definition wordBoundaryWalk :: "env \<Rightarrow> model \<Rightarrow> int \<Rightarrow> direction \<Rightarrow> int walk" where
  "wordBoundaryWalk e m offset d =
     (case at m offset of
        None \<Rightarrow> (Inl TypeError, 0)
      | Some a \<Rightarrow>
          if amode (fieldsOf m a) \<noteq> ''text'' then (Inr offset, 0)
          else if letterAndDigits e (avalue (fieldsOf m a)) then
            (case doWhileAt m (textAlnum e) d offset 0 of
               (Inl x, n) \<Rightarrow> (Inl x, n)
             | (Inr i, n) \<Rightarrow> (Inr (wordResult m d i), n))
          else if isSpace (avalue (fieldsOf m a)) then
            (case whileAt m textSpace d offset 0 of
               (i, n) \<Rightarrow>
                 if at m i = None
                 then (Inr (i - dirOf d - (if dirOf d > 0 then 0 else 1)), n)
                 else (case doWhileAt m textNonSpace d i n of
                         (Inl x, k) \<Rightarrow> (Inl x, k)
                       | (Inr j, k) \<Rightarrow> (Inr (wordResult m d j), k)))
          else
            (case whileAt m textNonSpace d offset 0 of
               (i, n) \<Rightarrow>
                 (case whileMatch m textSpace d i True n of
                    (j, k) \<Rightarrow> (Inr (wordResult m d j), k))))"

text \<open>The offset alone: what \<^verbatim>\<open>wordBoundaryOffset\<close> returns.\<close>

definition wordBoundaryOffset :: "env \<Rightarrow> model \<Rightarrow> int \<Rightarrow> direction \<Rightarrow> error + int" where
  "wordBoundaryOffset e m offset d = fst (wordBoundaryWalk e m offset d)"

subsection \<open>Changing the tree\<close>

fun setBranch :: "atom \<Rightarrow> branchName \<Rightarrow> atom list \<Rightarrow> atom" where
  "setBranch (Atom i a bo be su sb) Above xs = Atom i xs bo be su sb"
| "setBranch (Atom i a bo be su sb) Body xs = Atom i a xs be su sb"
| "setBranch (Atom i a bo be su sb) Below xs = Atom i a bo xs su sb"
| "setBranch (Atom i a bo be su sb) Superscript xs = Atom i a bo be xs sb"
| "setBranch (Atom i a bo be su sb) Subscript xs = Atom i a bo be su xs"

fun setInfo :: "(ainfo \<Rightarrow> ainfo) \<Rightarrow> atom \<Rightarrow> atom" where
  "setInfo g (Atom i a bo be su sb) = Atom (g i) a bo be su sb"

text \<open>The tree with the atom at a reference replaced by its image under \<open>f\<close>.\<close>

fun updateAt :: "atom \<Rightarrow> aref \<Rightarrow> (atom \<Rightarrow> atom) \<Rightarrow> atom" where
  "updateAt t [] f = f t"
| "updateAt t ((b, k) # p) f =
     (if k < length (branchList t b)
      then setBranch t b ((branchList t b)[k := updateAt (branchList t b ! k) p f])
      else t)"

text \<open>\<^verbatim>\<open>atom.isSuggestion = false\<close>\<close>

definition clearIsSuggestion :: "model \<Rightarrow> aref \<Rightarrow> model" where
  "clearIsSuggestion m p = m\<lparr>root := updateAt (root m) p (setInfo (\<lambda>i. i\<lparr>isSuggestion := False\<rparr>))\<rparr>"

subsection \<open>skip\<close>

text \<open>
  The loop over a live suggestion:
  \<^verbatim>\<open>while (atom && atom instanceof CommandAtom) { atom.isSuggestion = false;
  offset = model.offsetOf(atom); atom = atom.rightSibling; }\<close>
\<close>

partial_function (option) suggestionLoop ::
  "model \<Rightarrow> aref option \<Rightarrow> int \<Rightarrow> nat \<Rightarrow> (model \<times> int \<times> nat) option" where
  "suggestionLoop m atom offset n =
     (case atom of
        None \<Rightarrow> Some (m, offset, n)
      | Some p \<Rightarrow>
          if aclass (fieldsOf m p) = CommandAtom
          then suggestionLoop (clearIsSuggestion m p)
                 (rightSibling (clearIsSuggestion m p) p)
                 (offsetOf (clearIsSuggestion m p) (Some p)) (Suc n)
          else Some (m, offset, n))"

text \<open>
  The loops over the letters of a command, to the right and to the left:
  \<^verbatim>\<open>while (atom && atom instanceof CommandAtom && /[a-zA-Z\*]/.test(atom.value)) {
  offset = model.offsetOf(atom); atom = atom.rightSibling; }\<close>
\<close>

function commandLoop ::
  "model \<Rightarrow> direction \<Rightarrow> aref option \<Rightarrow> int \<Rightarrow> nat \<Rightarrow> int \<times> nat" where
  "commandLoop m d atom offset n =
     (case atom of
        None \<Rightarrow> (offset, n)
      | Some p \<Rightarrow>
          if aclass (fieldsOf m p) = CommandAtom \<and> isLetterOrStar (avalue (fieldsOf m p))
          then commandLoop m d (if d = Forward then rightSibling m p else leftSibling m p)
                 (offsetOf m (Some p)) (Suc n)
          else (offset, n))"
  by pat_completeness auto
termination
  by (relation "measure (\<lambda>(m, d, atom, offset, n).
        case atom of None \<Rightarrow> 0
        | Some p \<Rightarrow> if d = Forward then Suc (length (siblings m p) - sibIndex p)
                    else Suc (sibIndex p))")
     (auto simp: rightSibling_def leftSibling_def siblings_def sibIndex_def
           split: if_splits option.splits)

text \<open>
  The balanced fence, forward:
  \<^verbatim>\<open>do { if (atom.type === 'mopen') level += 1; else if (atom.type === 'mclose') level -= 1;
  atom = atom.rightSibling; } while (!atom.isLastSibling && level !== 0);\<close>
  Past the last sibling \<^verbatim>\<open>atom\<close> is undefined and the test throws.
\<close>

definition fenceLevel :: "model \<Rightarrow> aref \<Rightarrow> int \<Rightarrow> int" where
  "fenceLevel m p level =
     (if atype (fieldsOf m p) = ''mopen'' then level + 1
      else if atype (fieldsOf m p) = ''mclose'' then level - 1 else level)"

function fenceForward :: "model \<Rightarrow> aref \<Rightarrow> int \<Rightarrow> nat \<Rightarrow> aref walk" where
  "fenceForward m p level n =
     (case rightSibling m p of
        None \<Rightarrow> (Inl TypeError, Suc n)
      | Some q \<Rightarrow>
          if \<not> isLastSibling m q \<and> fenceLevel m p level \<noteq> 0
          then fenceForward m q (fenceLevel m p level) (Suc n)
          else (Inr q, Suc n))"
  by pat_completeness auto
termination
  by (relation "measure (\<lambda>(m, p, level, n). length (siblings m p) - sibIndex p)")
     (auto simp: rightSibling_def siblings_def sibIndex_def split: if_splits option.splits)

text \<open>
  The balanced fence, backward:
  \<^verbatim>\<open>do { ...; atom = atom.leftSibling; } while (!atom.isFirstSibling && level !== 0);\<close>
\<close>

function fenceBackward :: "model \<Rightarrow> aref \<Rightarrow> int \<Rightarrow> nat \<Rightarrow> aref walk" where
  "fenceBackward m p level n =
     (case leftSibling m p of
        None \<Rightarrow> (Inl TypeError, Suc n)
      | Some q \<Rightarrow>
          if \<not> isFirstSibling m q \<and> fenceLevel m p level \<noteq> 0
          then fenceBackward m q (fenceLevel m p level) (Suc n)
          else (Inr q, Suc n))"
  by pat_completeness auto
termination
  by (relation "measure (\<lambda>(m, p, level, n). sibIndex p)")
     (auto simp: leftSibling_def sibIndex_def split: if_splits)

text \<open>
  Backward from a \<^verbatim>\<open>first\<close> sentinel:
  \<^verbatim>\<open>while (offset > 0 && atom.type === 'first') { offset -= 1; atom = model.at(offset); }\<close>
\<close>

function firstLoop :: "model \<Rightarrow> int \<Rightarrow> aref option \<Rightarrow> nat \<Rightarrow> int walk" where
  "firstLoop m offset atom n =
     (if offset > 0 then
        (case atom of
           None \<Rightarrow> (Inl TypeError, n)
         | Some p \<Rightarrow>
             if atype (fieldsOf m p) = ''first''
             then firstLoop m (offset - 1) (at m (offset - 1)) (Suc n)
             else (Inr offset, n))
      else (Inr offset, n))"
  by pat_completeness auto
termination
  by (relation "measure (\<lambda>(m, offset, atom, n). nat offset)") auto

declare commandLoop.simps [simp del] fenceForward.simps [simp del]
  fenceBackward.simps [simp del] firstLoop.simps [simp del]

text \<open>\<^verbatim>\<open>model.at(offset)?.type\<close>\<close>

definition typeAt :: "model \<Rightarrow> int \<Rightarrow> string option" where
  "typeAt m i = map_option (\<lambda>p. atype (fieldsOf m p)) (at m i)"

text \<open>
  \<^verbatim>\<open>model.offsetOf(model.at(offset).leftSibling)\<close>, in a place where
  \<^verbatim>\<open>model.at(offset)\<close> is known to be an atom.
\<close>

definition leftOffset :: "model \<Rightarrow> int \<Rightarrow> int" where
  "leftOffset m offset = offsetOf m (Option.bind (at m offset) (leftSibling m))"

text \<open>
  Backward over atoms of one type:
  \<^verbatim>\<open>while (offset >= 0 && nextType === type) {
    if (model.at(offset)?.type === 'msubsup') offset = model.offsetOf(model.at(offset).leftSibling);
    else offset -= 1;
    nextType = model.at(offset).type; }\<close>
\<close>

definition backwardStep :: "model \<Rightarrow> int \<Rightarrow> int" where
  "backwardStep m offset =
     (if typeAt m offset = Some ''msubsup'' then leftOffset m offset else offset - 1)"

partial_function (option) backwardLoop ::
  "model \<Rightarrow> string \<Rightarrow> int \<Rightarrow> string option \<Rightarrow> nat \<Rightarrow> int walk option" where
  "backwardLoop m type offset nextType n =
     (if offset \<ge> 0 \<and> nextType = Some type then
        (case typeAt m (backwardStep m offset) of
           None \<Rightarrow> Some (Inl TypeError, Suc n)
         | Some t \<Rightarrow> backwardLoop m type (backwardStep m offset) (Some t) (Suc n))
      else Some (Inr offset, n))"

text \<open>
  Forward, the inner loop:
  \<^verbatim>\<open>while (model.at(offset).rightSibling?.type === 'msubsup')
    offset = model.offsetOf(model.at(offset).rightSibling);\<close>
\<close>

partial_function (option) subsupLoop :: "model \<Rightarrow> int \<Rightarrow> nat \<Rightarrow> int walk option" where
  "subsupLoop m offset n =
     (case at m offset of
        None \<Rightarrow> Some (Inl TypeError, n)
      | Some a \<Rightarrow>
          (case rightSibling m a of
             None \<Rightarrow> Some (Inr offset, n)
           | Some r \<Rightarrow>
               if atype (fieldsOf m r) = ''msubsup''
               then subsupLoop m (offsetOf m (Some r)) (Suc n)
               else Some (Inr offset, n)))"

text \<open>
  Forward, the outer loop:
  \<^verbatim>\<open>while (offset <= lastOffset && (nextType === type || nextType === 'msubsup')) {
    <inner loop>; offset += 1; nextType = model.at(offset)?.type; }\<close>
\<close>

partial_function (option) forwardLoop ::
  "model \<Rightarrow> string \<Rightarrow> int \<Rightarrow> string option \<Rightarrow> nat \<Rightarrow> int walk option" where
  "forwardLoop m type offset nextType n =
     (if offset \<le> lastOffset m \<and> (nextType = Some type \<or> nextType = Some ''msubsup'') then
        (case subsupLoop m offset (Suc n) of
           None \<Rightarrow> None
         | Some (Inl x, k) \<Rightarrow> Some (Inl x, k)
         | Some (Inr i, k) \<Rightarrow> forwardLoop m type (i + 1) (typeAt m (i + 1)) k)
      else Some (Inr offset, n))"

declare suggestionLoop.simps [code] backwardLoop.simps [code] subsupLoop.simps [code]
  forwardLoop.simps [code]

text \<open>
  The atom the skip starts from: the one at the cursor (backward), or the next one
  (forward; past a \<^verbatim>\<open>msubsup\<close> its right sibling, if it has one).
\<close>

definition skipStart :: "model \<Rightarrow> direction \<Rightarrow> error + aref option" where
  "skipStart m d =
     (if d = Forward then
        (case at m (position m) of
           None \<Rightarrow> Inl TypeError
         | Some a \<Rightarrow>
             if atype (fieldsOf m a) = ''msubsup'' then
               (case rightSibling m a of
                  None \<Rightarrow> Inr (at m (position m + 1))
                | Some r \<Rightarrow> Inr (Some r))
             else Inr (at m (position m + 1)))
      else Inr (at m (position m)))"

text \<open>
  The offset the skip arrives at, from the atom it starts from. \<open>None\<close> as offset is
  the early \<^verbatim>\<open>return false\<close> at the end of a command, after its soft-fail.
\<close>

definition skipOffset ::
  "env \<Rightarrow> model \<Rightarrow> direction \<Rightarrow> aref \<Rightarrow> (model \<times> int option) walk option" where
  "skipOffset e m d p =
     (let offset = offsetOf m (Some p); f = fieldsOf m p in
      if aclass f = TextAtom then
        Some (case wordBoundaryWalk e m offset d of
                (Inl x, n) \<Rightarrow> (Inl x, n)
              | (Inr i, n) \<Rightarrow> (Inr (m, Some i), n))
      else if aclass f = CommandAtom then
        (if isSuggestion f then
           (case suggestionLoop m (Some p) offset 0 of
              None \<Rightarrow> None
            | Some (m', i, n) \<Rightarrow> Some (Inr (m', Some i), n))
         else
           (case (if d = Forward then rightSibling m p else leftSibling m p) of
              None \<Rightarrow> Some (Inr (m, None), 0)
            | Some q \<Rightarrow>
                if aclass (fieldsOf m q) \<noteq> CommandAtom then Some (Inr (m, None), 0)
                else (case commandLoop m d (Some q) offset 0 of
                        (i, n) \<Rightarrow> Some (Inr (m, Some i), n))))
      else if d = Forward \<and> atype f = ''mopen'' then
        Some (case fenceForward m p 0 0 of
                (Inl x, n) \<Rightarrow> (Inl x, n)
              | (Inr q, n) \<Rightarrow> (Inr (m, Some (offsetOf m (leftSibling m q))), n))
      else if d = Backward \<and> atype f = ''mclose'' then
        Some (case fenceBackward m p 0 0 of
                (Inl x, n) \<Rightarrow> (Inl x, n)
              | (Inr q, n) \<Rightarrow> (Inr (m, Some (offsetOf m (Some q))), n))
      else if d = Backward then
        (if atype f = ''first'' then
           Some (case firstLoop m offset (Some p) 0 of
                   (Inl x, n) \<Rightarrow> (Inl x, n)
                 | (Inr i, n) \<Rightarrow> (Inr (m, Some i), n))
         else if atype f = ''msubsup'' \<and> at m offset = None then Some (Inl TypeError, 0)
         else
           (case backwardLoop m (if aclass f = SubsupAtom then baseType f else atype f)
                   ((if atype f = ''msubsup'' then leftOffset m offset else offset) - 1)
                   (typeAt m ((if atype f = ''msubsup'' then leftOffset m offset else offset) - 1))
                   0 of
              None \<Rightarrow> None
            | Some (Inl x, n) \<Rightarrow> Some (Inl x, n)
            | Some (Inr i, n) \<Rightarrow> Some (Inr (m, Some i), n)))
      else
        (case forwardLoop m (atype f) offset (typeAt m offset) 0 of
           None \<Rightarrow> None
         | Some (Inl x, n) \<Rightarrow> Some (Inl x, n)
         | Some (Inr i, n) \<Rightarrow> Some (Inr (m, Some (i - 1)), n)))"

text \<open>The end of \<^verbatim>\<open>skip\<close>: the selection is extended or the cursor is moved.\<close>

definition skipFinish :: "model \<Rightarrow> bool \<Rightarrow> int \<Rightarrow> int \<Rightarrow> bool \<times> model" where
  "skipFinish m ext offset previousPosition =
     (if ext then
        (case setSelection m (anchor m) offset of
           (ok, m') \<Rightarrow>
             if \<not> ok then (False, announce m' ''plonk'' None)
             else (True, announce m' ''move'' (Some previousPosition)))
      else if offset = position m then (False, announce m ''plonk'' None)
      else (True, announce (setPosition m offset) ''move'' (Some previousPosition)))"

text \<open>
  \<^verbatim>\<open>skip(model, direction, options)\<close> with the number of iterations of its loops.
  \<open>None\<close> is a walk that does not end.
\<close>

definition skipWalk ::
  "env \<Rightarrow> model \<Rightarrow> direction \<Rightarrow> bool \<Rightarrow> (bool \<times> model) walk option" where
  "skipWalk e m d ext =
     (let m1 = (if \<not> ext then snd (collapseSelection m d) else m) in
      case skipStart m1 d of
        Inl x \<Rightarrow> Some (Inl x, 0)
      | Inr None \<Rightarrow> Some (Inr (False, announce m1 ''plonk'' None), 0)
      | Inr (Some p) \<Rightarrow>
          (case skipOffset e m1 d p of
             None \<Rightarrow> None
           | Some (Inl x, n) \<Rightarrow> Some (Inl x, n)
           | Some (Inr (m2, None), n) \<Rightarrow> Some (Inr (False, announce m2 ''plonk'' None), n)
           | Some (Inr (m2, Some offset), n) \<Rightarrow>
               Some (Inr (skipFinish m2 ext offset (position m)), n)))"

definition skip :: "env \<Rightarrow> model \<Rightarrow> direction \<Rightarrow> bool \<Rightarrow> (error + bool \<times> model) option" where
  "skip e m d ext = map_option fst (skipWalk e m d ext)"


subsection \<open>move\<close>

text \<open>\<^verbatim>\<open>atom?.parent?.captureSelection\<close> and \<^verbatim>\<open>atom.parent?.skipBoundary\<close>\<close>

definition parentFlag :: "model \<Rightarrow> (ainfo \<Rightarrow> bool) \<Rightarrow> aref \<Rightarrow> bool" where
  "parentFlag m flag a = (case parent a of None \<Rightarrow> False | Some q \<Rightarrow> flag (fieldsOf m q))"

text \<open>
  Step 1 of \<^verbatim>\<open>move\<close>: the candidate offset, one step from the cursor, after the
  corrections for \<^verbatim>\<open>captureSelection\<close> and \<^verbatim>\<open>skipBoundary\<close>.
\<close>

definition moveTarget :: "model \<Rightarrow> direction \<Rightarrow> int" where
  "moveTarget m d =
     (let pos = position m + (if d = Forward then 1 else -1) in
      if d = Forward then
        (case at m (position m + 1) of
           None \<Rightarrow> pos
         | Some atom \<Rightarrow>
             if parentFlag m captureSelection atom
             then offsetOf m (Option.bind (parent atom) (lastChild m)) + 1
             else if skipBoundary (fieldsOf m atom) then pos + 1
             else pos)
      else if d = Backward then
        (case at m (position m - 1) of
           None \<Rightarrow> pos
         | Some atom \<Rightarrow>
             if parentFlag m captureSelection atom
             then max 0 (offsetOf m (Option.bind (parent atom) (firstChild m)) - 1)
             else if isFirstSibling m atom \<and> parentFlag m skipBoundary atom then pos - 1
             else pos)
      else pos)"

text \<open>\<^verbatim>\<open>model.at(pos)?.rightSibling?.type\<close>\<close>

definition rightTypeAt :: "model \<Rightarrow> int \<Rightarrow> string option" where
  "rightTypeAt m i =
     map_option (\<lambda>p. atype (fieldsOf m p)) (Option.bind (at m i) (rightSibling m))"

text \<open>Step 3 of \<^verbatim>\<open>move\<close>: a placeholder at the target is selected.\<close>

definition movePlace :: "model \<Rightarrow> int \<Rightarrow> model" where
  "movePlace m pos =
     (if typeAt m pos = Some ''placeholder'' then snd (setSelection m (pos - 1) pos)
      else if rightTypeAt m pos = Some ''placeholder'' then snd (setSelection m pos (pos + 1))
      else setPosition m pos)"

text \<open>
  \<^verbatim>\<open>move\<close> from \<^verbatim>\<open>if (!model.collapseSelection(direction))\<close> on: forward or backward,
  no extension, and the selection is not a placeholder.
\<close>

definition moveStep :: "env \<Rightarrow> model \<Rightarrow> direction \<Rightarrow> bool \<times> model" where
  "moveStep e m d =
     (case collapseSelection m d of
        (True, m1) \<Rightarrow> (True, announce m1 ''move'' (Some (position m)))
      | (False, m1) \<Rightarrow>
          if moveTarget m1 d < 0 \<or> moveTarget m1 d > lastOffset m1 then
            (case (if \<not> suppressChangeNotifications m1 then moveOut e m1 d else (True, m1)) of
               (result, m2) \<Rightarrow> (result, if result then announce m2 ''plonk'' None else m2))
          else (True, announce (movePlace m1 (moveTarget m1 d)) ''move'' (Some (position m))))"

subsection \<open>moveUpward, moveDownward\<close>

text \<open>\<^verbatim>\<open>while (atom && atom.treeBranch !== name) { atom = atom.parent; }\<close>\<close>

function findAncestor :: "aref option \<Rightarrow> branchName \<Rightarrow> aref option" where
  "findAncestor None b = None"
| "findAncestor (Some p) b = (if treeBranch p = Some b then Some p else findAncestor (parent p) b)"
  by pat_completeness auto
termination
  by (relation "measure (\<lambda>(a, b). case a of None \<Rightarrow> 0 | Some p \<Rightarrow> Suc (length p))")
     (auto simp: parent_def split: if_splits)

text \<open>
  Modelled from the spec: \<^verbatim>\<open>Atom.createBranch(name)\<close> is missing. A new branch holds
  its \<^verbatim>\<open>first\<close> sentinel; creating a branch that exists changes nothing.
\<close>

definition firstAtom :: "string \<Rightarrow> atom" where
  "firstAtom md =
     Atom \<lparr>atype = ''first'', amode = md, avalue = [], aclass = PlainAtom, baseType = [],
           limits = [], captureSelection = False, skipBoundary = False, isSuggestion = False\<rparr>
       [] [] [] [] []"

definition createBranch :: "model \<Rightarrow> aref \<Rightarrow> branchName \<Rightarrow> model" where
  "createBranch m p b =
     m\<lparr>root := updateAt (root m) p
                 (\<lambda>t. if branchList t b = [] then setBranch t b [firstAtom (amode (info t))] else t)\<rparr>"

text \<open>
  \<^verbatim>\<open>const branch = owner.branch(name) ?? owner.createBranch(name);
  model.position = model.offsetOf(branch[branch.length - 1]);\<close>
\<close>

definition enterBranch :: "model \<Rightarrow> aref \<Rightarrow> branchName \<Rightarrow> error + model" where
  "enterBranch m owner b =
     (let m1 = (if branch m owner b = None then createBranch m owner b else m) in
      case branch m1 owner b of
        None \<Rightarrow> Inl TypeError
      | Some br \<Rightarrow> Inr (setPosition m1 (offsetOf m1 (Some (last br)))))"

text \<open>
  The common body of \<^verbatim>\<open>moveUpward\<close> (\<open>from = Below\<close>, \<open>to = Above\<close>, collapsing
  backward) and \<^verbatim>\<open>moveDownward\<close> (\<open>from = Above\<close>, \<open>to = Below\<close>, collapsing
  forward); the two functions of the source differ in these constants only.
\<close>

definition moveVertical ::
  "env \<Rightarrow> model \<Rightarrow> bool \<Rightarrow> direction \<Rightarrow> direction \<Rightarrow> branchName \<Rightarrow> branchName \<Rightarrow> string
     \<Rightarrow> error + bool \<times> model" where
  "moveVertical e m ext d collapse from to kind =
     (let m1 = snd (collapseSelection m collapse) in
      case findAncestor (at m1 (position m1)) from of
        Some atom \<Rightarrow>
          (case parent atom of
             None \<Rightarrow> Inl TypeError
           | Some owner \<Rightarrow>
               if ext then
                 Inr (True, announce (snd (setSelection m1 (offsetOf m1 (leftSibling m1 owner))
                                             (offsetOf m1 (Some owner)))) kind None)
               else (case enterBranch m1 owner to of
                       Inl x \<Rightarrow> Inl x
                     | Inr m2 \<Rightarrow> Inr (True, announce m2 kind None)))
      | None \<Rightarrow>
          (case at m1 (position m1) of
             None \<Rightarrow> Inl TypeError
           | Some a \<Rightarrow>
               if Option.bind (parent a) parent = None then
                 (case (if \<not> suppressChangeNotifications m1 then moveOut e m1 d
                        else (True, m1)) of
                    (result, m2) \<Rightarrow>
                      Inr (result, announce m2 (if result then ''plonk'' else ''line'') None))
               else Inr (True, m1)))"

definition moveUpward :: "env \<Rightarrow> model \<Rightarrow> bool \<Rightarrow> error + bool \<times> model" where
  "moveUpward e m ext = moveVertical e m ext Upward Backward Below Above ''move up''"

definition moveDownward :: "env \<Rightarrow> model \<Rightarrow> bool \<Rightarrow> error + bool \<times> model" where
  "moveDownward e m ext = moveVertical e m ext Downward Forward Above Below ''move down''"

text \<open>
  \<^verbatim>\<open>move(model, direction, options)\<close>. After a placeholder selection is collapsed the
  function calls itself; the suggestion is cleared again there, by a function this
  file does not hold, so that the call is not known to return: \<open>None\<close> is a call that
  does not.
\<close>

partial_function (option) move ::
  "env \<Rightarrow> model \<Rightarrow> direction \<Rightarrow> bool \<Rightarrow> (error + bool \<times> model) option" where
  "move e m d ext =
     (if d = Upward then Some (moveUpward e (clearSuggestion e m) ext)
      else if d = Downward then Some (moveDownward e (clearSuggestion e m) ext)
      else if ext then Some (Inr (extendSelection e (clearSuggestion e m) d))
      else if selectionIsPlaceholder (clearSuggestion e m)
      then move e (snd (collapseSelection (clearSuggestion e m) d)) d False
      else Some (Inr (moveStep e (clearSuggestion e m) d)))"

declare move.simps [code]


subsection \<open>leap\<close>

text \<open>
  Modelled from the spec: \<^verbatim>\<open>getAllAtoms(offset)\<close> is the atoms from that offset to the
  end of the document, in document order.
\<close>

definition getAllAtoms :: "model \<Rightarrow> int \<Rightarrow> aref list" where
  "getAllAtoms m i = drop (nat i) (atoms m)"

text \<open>
  Modelled from the spec: \<^verbatim>\<open>treeDepth\<close> is missing; the spec speaks of an empty
  branch that is not the root's, so the atoms of the root's own branch have depth 0.
\<close>

definition treeDepth :: "aref \<Rightarrow> nat" where
  "treeDepth p = length p - 1"

definition isLeapTarget :: "model \<Rightarrow> aref \<Rightarrow> bool" where
  "isLeapTarget m a =
     (atype (fieldsOf m a) = ''placeholder'' \<or>
      (treeDepth a > 0 \<and> isFirstSibling m a \<and> isLastSibling m a))"

text \<open>
  The index of the element that gets the focus:
  \<^verbatim>\<open>let index = tabbable.indexOf(document.activeElement) + dist;
  if (index < 0) index = tabbable.length - 1; if (index >= tabbable.length) index = 0;\<close>
\<close>

definition focusIndex :: "nat list \<Rightarrow> nat \<Rightarrow> int \<Rightarrow> int" where
  "focusIndex els active dist =
     (let i0 = indexOf els active + dist;
          i1 = (if i0 < 0 then int (length els) - 1 else i0)
      in if i1 \<ge> int (length els) then 0 else i1)"

text \<open>
  The end of \<^verbatim>\<open>leap\<close> when the document has no target:
  \<^verbatim>\<open>const handled = !callHooks || !model.hooks.tabOut?.(model, dir);\<close> where the hook is
  called only if \<^verbatim>\<open>callHooks\<close> holds and the hook exists. The third component of
  the result is the element of the page that is given the focus, if any;
  \<^verbatim>\<open>tabbable[index].focus()\<close> throws where the page has no focusable element.
\<close>

definition leapOut ::
  "env \<Rightarrow> model \<Rightarrow> direction \<Rightarrow> bool \<Rightarrow> error + bool \<times> model \<times> nat option" where
  "leapOut e m d callHooks =
     (let dist = (if d = Forward then 1 else -1 :: int) in
      case (if callHooks then (case tabOut e of None \<Rightarrow> (False, m) | Some h \<Rightarrow> h m d)
            else (False, m)) of
        (out, m1) \<Rightarrow>
          if \<not> out then Inr (False, announce m1 ''plonk'' None, None)
          else
            (case activeElement e of
               None \<Rightarrow> Inr (False, announce m1 ''plonk'' None, None)
             | Some active \<Rightarrow>
                 if length (tabbable e) = 1 then Inr (False, announce m1 ''plonk'' None, None)
                 else if tabbable e = [] then Inl TypeError
                 else if focusIndex (tabbable e) active dist = 0
                 then Inr (False, announce m1 ''plonk'' None, Some (tabbable e ! 0))
                 else Inr (True, m1,
                           Some (tabbable e ! nat (focusIndex (tabbable e) active dist)))))"

text \<open>\<^verbatim>\<open>leap\<close> from \<^verbatim>\<open>const atoms = model.getAllAtoms(model.position + dist)\<close> on.\<close>

definition leapFrom ::
  "env \<Rightarrow> model \<Rightarrow> direction \<Rightarrow> bool \<Rightarrow> error + bool \<times> model \<times> nat option" where
  "leapFrom e m d callHooks =
     (let dist = (if d = Forward then 1 else -1 :: int);
          all = getAllAtoms m (position m + dist);
          placeholders = filter (isLeapTarget m) (if d = Backward then rev all else all)
      in
      case placeholders of
        [] \<Rightarrow> leapOut e m d callHooks
      | p # ps \<Rightarrow>
          (let newPosition = offsetOf m (Some p) in
           Inr (True,
                announce
                  (if atype (fieldsOf m p) = ''placeholder''
                   then snd (setSelection m (newPosition - 1) newPosition)
                   else setPosition m newPosition)
                  ''move'' (Some (position m)),
                None)))"

definition leap ::
  "env \<Rightarrow> model \<Rightarrow> direction \<Rightarrow> bool \<Rightarrow> (error + bool \<times> model \<times> nat option) option" where
  "leap e m d callHooks =
     (case at m (anchor m) of
        None \<Rightarrow> Some (Inl TypeError)
      | Some a \<Rightarrow>
          if atype (fieldsOf m a) = ''placeholder'' then
            (case move e m d False of
               None \<Rightarrow> None
             | Some (Inl x) \<Rightarrow> Some (Inl x)
             | Some (Inr (r, m1)) \<Rightarrow> Some (leapFrom e m1 d callHooks))
          else Some (leapFrom e m d callHooks))"

subsection \<open>selectGroup\<close>








subsection \<open>moveToSuperscript, moveToSubscript\<close>

text \<open>
  \<^verbatim>\<open>while (atom) { if (!atom.hasEmptyBranch('superscript') || !atom.hasEmptyBranch('subscript'))
    result += 1;
    if (!atom.hasEmptyBranch('superscript')) wasSuperscript = true;
    else if (!atom.hasEmptyBranch('subscript')) wasSuperscript = false;
    atom = atom.parent; }\<close>
\<close>

function superscriptDepthLoop :: "model \<Rightarrow> aref option \<Rightarrow> nat \<Rightarrow> bool \<Rightarrow> nat \<times> bool" where
  "superscriptDepthLoop m None result was = (result, was)"
| "superscriptDepthLoop m (Some p) result was =
     superscriptDepthLoop m (parent p)
       (if \<not> hasEmptyBranch m p Superscript \<or> \<not> hasEmptyBranch m p Subscript
        then result + 1 else result)
       (if \<not> hasEmptyBranch m p Superscript then True
        else if \<not> hasEmptyBranch m p Subscript then False else was)"
  by pat_completeness auto
termination
  by (relation "measure (\<lambda>(m, a, r, w). case a of None \<Rightarrow> 0 | Some p \<Rightarrow> Suc (length p))")
     (auto simp: parent_def split: if_splits)

definition superscriptDepth :: "model \<Rightarrow> nat" where
  "superscriptDepth m =
     (case superscriptDepthLoop m (at m (position m)) 0 False of
        (result, wasSuperscript) \<Rightarrow> if wasSuperscript then result else 0)"

function subscriptDepthLoop :: "model \<Rightarrow> aref option \<Rightarrow> nat \<Rightarrow> bool \<Rightarrow> nat \<times> bool" where
  "subscriptDepthLoop m None result was = (result, was)"
| "subscriptDepthLoop m (Some p) result was =
     subscriptDepthLoop m (parent p)
       (if \<not> hasEmptyBranch m p Superscript \<or> \<not> hasEmptyBranch m p Subscript
        then result + 1 else result)
       (if \<not> hasEmptyBranch m p Superscript then False
        else if \<not> hasEmptyBranch m p Subscript then True else was)"
  by pat_completeness auto
termination
  by (relation "measure (\<lambda>(m, a, r, w). case a of None \<Rightarrow> 0 | Some p \<Rightarrow> Suc (length p))")
     (auto simp: parent_def split: if_splits)

definition subscriptDepth :: "model \<Rightarrow> nat" where
  "subscriptDepth m =
     (case subscriptDepthLoop m (at m (position m)) 0 False of
        (result, wasSubscript) \<Rightarrow> if wasSubscript then result else 0)"

text \<open>
  Modelled from the spec: \<^verbatim>\<open>Atom.addChildAfter(child, after)\<close> is missing; the child
  becomes the right sibling of \<open>after\<close>.
\<close>

definition addChildAfter :: "model \<Rightarrow> atom \<Rightarrow> aref \<Rightarrow> model" where
  "addChildAfter m child after =
     (if after = [] then m
      else m\<lparr>root := updateAt (root m) (butlast after)
                 (\<lambda>t. setBranch t (fst (last after))
                        (take (Suc (sibIndex after)) (branchList t (fst (last after))) @
                         child # drop (Suc (sibIndex after)) (branchList t (fst (last after)))))\<rparr>)"

text \<open>
  Modelled from the spec: \<^verbatim>\<open>getSiblingsRange(offset)\<close> is the span from the first to the
  last sibling of the atom at the offset.
\<close>

definition getSiblingsRange :: "model \<Rightarrow> int \<Rightarrow> error + int \<times> int" where
  "getSiblingsRange m offset =
     (case at m offset of
        None \<Rightarrow> Inl TypeError
      | Some a \<Rightarrow> Inr (offsetOf m (firstSibling m a), offsetOf m (lastSibling m a)))"

text \<open>
  The atoms the two commands put next to an atom that cannot carry scripts:
  \<^verbatim>\<open>new SubsupAtom({ baseType: target.type, ... })\<close> and
  \<^verbatim>\<open>new Atom('msubsup', { mode: target.mode, value: ZWSP, ... })\<close> (the value is
  the zero width space U+200B, here in UTF-8).
\<close>

definition newSubsupAtom :: "string \<Rightarrow> atom" where
  "newSubsupAtom base =
     Atom \<lparr>atype = ''msubsup'', amode = ''math'', avalue = [], aclass = SubsupAtom,
           baseType = base, limits = [], captureSelection = False, skipBoundary = False,
           isSuggestion = False\<rparr> [] [] [] [] []"

definition newMsubsupAtom :: "string \<Rightarrow> atom" where
  "newMsubsupAtom md =
     Atom \<lparr>atype = ''msubsup'', amode = md, avalue = map char_of [226, 128, 139 :: nat],
           aclass = PlainAtom, baseType = [], limits = [], captureSelection = False,
           skipBoundary = False, isSuggestion = False\<rparr> [] [] [] [] []"

text \<open>
  The atom that gets the script: the one at the cursor if it takes limits, and
  otherwise the \<^verbatim>\<open>msubsup\<close> after it, added if it is not there.
\<close>

definition scriptTarget :: "model \<Rightarrow> (ainfo \<Rightarrow> atom) \<Rightarrow> error + model \<times> aref" where
  "scriptTarget m new =
     (case at m (position m) of
        None \<Rightarrow> Inl TypeError
      | Some target \<Rightarrow>
          if limits (fieldsOf m target) \<noteq> ''limits'' \<and> limits (fieldsOf m target) \<noteq> ''auto'' then
            (let m1 = (if typeAt m (position m + 1) \<noteq> Some ''msubsup''
                       then addChildAfter m (new (fieldsOf m target)) target else m)
             in case at m1 (position m1 + 1) of
                  None \<Rightarrow> Inl TypeError
                | Some t \<Rightarrow> Inr (m1, t))
          else Inr (m, target))"

text \<open>
  \<^verbatim>\<open>target.createBranch(name);
  model.setSelection(model.getSiblingsRange(model.offsetOf(target[name][0])));\<close>
\<close>

definition selectScript :: "model \<Rightarrow> aref \<Rightarrow> branchName \<Rightarrow> error + bool \<times> model" where
  "selectScript m target b =
     (let m1 = createBranch m target b in
      case getSiblingsRange m1 (offsetOf m1 (map_option hd (branch m1 target b))) of
        Inl x \<Rightarrow> Inl x
      | Inr (start, end) \<Rightarrow> Inr (True, snd (setSelection m1 start end)))"

definition moveToSuperscript :: "env \<Rightarrow> model \<Rightarrow> error + bool \<times> model" where
  "moveToSuperscript e m =
     (let m0 = snd (collapseSelection m Forward) in
      if superscriptDepth m0 \<ge> snd (scriptDepth e) then Inr (False, announce m0 ''plonk'' None)
      else
        (case scriptTarget m0 (\<lambda>f. newSubsupAtom (atype f)) of
           Inl x \<Rightarrow> Inl x
         | Inr (m1, target) \<Rightarrow> selectScript m1 target Superscript))"

definition moveToSubscript :: "env \<Rightarrow> model \<Rightarrow> error + bool \<times> model" where
  "moveToSubscript e m =
     (let m0 = snd (collapseSelection m Forward) in
      if subscriptDepth m0 \<ge> fst (scriptDepth e) then Inr (False, announce m0 ''plonk'' None)
      else
        (case scriptTarget m0 (\<lambda>f. newMsubsupAtom (amode f)) of
           Inl x \<Rightarrow> Inl x
         | Inr (m1, target) \<Rightarrow> selectScript m1 target Subscript))"

subsection \<open>The registered commands\<close>







text \<open>The commands \<^verbatim>\<open>moveUp\<close>, \<^verbatim>\<open>moveDown\<close>, \<^verbatim>\<open>moveToNextPlaceholder\<close>.\<close>

definition moveUp :: "env \<Rightarrow> model \<Rightarrow> (error + bool \<times> model) option" where
  "moveUp e m = move e m Upward False"

definition moveDown :: "env \<Rightarrow> model \<Rightarrow> (error + bool \<times> model) option" where
  "moveDown e m = move e m Downward False"

definition moveToNextPlaceholder ::
  "env \<Rightarrow> model \<Rightarrow> (error + bool \<times> model \<times> nat option) option" where
  "moveToNextPlaceholder e m = leap e m Forward True"

subsection \<open>Documents for the scenarios\<close>

definition mkInfo :: "string \<Rightarrow> string \<Rightarrow> string \<Rightarrow> atomClass \<Rightarrow> ainfo" where
  "mkInfo ty md v c =
     \<lparr>atype = ty, amode = md, avalue = v, aclass = c, baseType = [], limits = [],
      captureSelection = False, skipBoundary = False, isSuggestion = False\<rparr>"

definition leaf :: "ainfo \<Rightarrow> atom" where
  "leaf i = Atom i [] [] [] [] []"

text \<open>A math atom without children, and the sentinel of a math branch.\<close>

definition mathAtom :: "string \<Rightarrow> string \<Rightarrow> atom" where
  "mathAtom ty v = leaf (mkInfo ty ''math'' v PlainAtom)"

definition mathFirst :: atom where
  "mathFirst = mathAtom ''first'' []"

text \<open>A run of text: the sentinel and one text atom for each character.\<close>

definition textRun :: "string \<Rightarrow> atom list" where
  "textRun s =
     leaf (mkInfo ''first'' ''text'' [] PlainAtom) #
     map (\<lambda>c. leaf (mkInfo ''text'' ''text'' [c] TextAtom)) s"

text \<open>The document whose root holds the given atoms, with the cursor at an offset.\<close>

definition mkModel :: "atom list \<Rightarrow> int \<Rightarrow> model" where
  "mkModel xs p =
     \<lparr>root = Atom (mkInfo ''root'' ''math'' [] PlainAtom) [] xs [] [] [],
      position = p, anchor = p, suppressChangeNotifications = False, announced = []\<rparr>"

text \<open>
  A host whose \<^verbatim>\<open>moveOut\<close> hook answers \<open>out\<close> and that has a \<^verbatim>\<open>tabOut\<close> hook
  answering \<open>tab\<close>, neither touching the model; nothing to extend, no pending
  suggestion, no script allowed beyond
  depth \<open>depth\<close>, and a page with the focusable elements \<open>els\<close>, the focus on \<open>act\<close>.
\<close>

definition mkEnv :: "bool \<Rightarrow> bool \<Rightarrow> nat \<Rightarrow> nat list \<Rightarrow> nat option \<Rightarrow> env" where
  "mkEnv out tab depth els act =
     \<lparr>letterAndDigits = asciiLetterOrDigit, moveOut = (\<lambda>m d. (out, m)),
      tabOut = Some (\<lambda>m d. (tab, m)), scriptDepth = (depth, depth),
      extendSelection = (\<lambda>m d. (False, m)), clearSuggestion = (\<lambda>m. m),
      getMode = (\<lambda>m i. case at m i of None \<Rightarrow> [] | Some a \<Rightarrow> amode (fieldsOf m a)),
      tabbable = els, activeElement = act\<rparr>"

text \<open>
  A host with a pending suggestion: the same host, for which the clearing of the
  suggestion removes the atoms marked as suggestion from the branch of the root, and
  whose \<^verbatim>\<open>moveOut\<close> hook answers false and moves the cursor to offset 0. The document
  \<^verbatim>\<open>a\<close> followed by one atom of a suggestion.
\<close>

definition dropSuggestions :: "model \<Rightarrow> model" where
  "dropSuggestions m =
     m\<lparr>root := setBranch (root m) Body
                 (filter (\<lambda>t. \<not> isSuggestion (info t)) (bodyB (root m)))\<rparr>"

definition suggestingEnv :: env where
  "suggestingEnv =
     (mkEnv False True 1 [] None)
       \<lparr>moveOut := (\<lambda>m d. (False, setPosition m 0)), clearSuggestion := dropSuggestions\<rparr>"

definition docSuggestion :: "atom list" where
  "docSuggestion =
     [mathFirst, mathAtom ''mord'' ''a'',
      leaf ((mkInfo ''command'' ''command'' ''s'' CommandAtom)\<lparr>isSuggestion := True\<rparr>)]"

text \<open>The document \<^verbatim>\<open>( a ( b ) c )\<close>: the fields of its atoms, the sentinel first.\<close>

definition fenceInfos :: "ainfo \<Rightarrow> ainfo \<Rightarrow> ainfo \<Rightarrow> ainfo list" where
  "fenceInfos a b c =
     [mkInfo ''first'' ''math'' [] PlainAtom, mkInfo ''mopen'' ''math'' ''('' PlainAtom, a,
      mkInfo ''mopen'' ''math'' ''('' PlainAtom, b, mkInfo ''mclose'' ''math'' '')'' PlainAtom, c,
      mkInfo ''mclose'' ''math'' '')'' PlainAtom]"

text \<open>The documents \<^verbatim>\<open>a b c\<close>, \<^verbatim>\<open>a [] b\<close> and \<^verbatim>\<open>[] []\<close>, where \<^verbatim>\<open>[]\<close> is a placeholder.\<close>

definition docABC :: "atom list" where
  "docABC = [mathFirst, mathAtom ''mord'' ''a'', mathAtom ''mord'' ''b'', mathAtom ''mord'' ''c'']"

definition docAPB :: "atom list" where
  "docAPB = [mathFirst, mathAtom ''mord'' ''a'', mathAtom ''placeholder'' [],
             mathAtom ''mord'' ''b'']"

definition docPP :: "atom list" where
  "docPP = [mathFirst, mathAtom ''placeholder'' [], mathAtom ''placeholder'' []]"

text \<open>The document \<^verbatim>\<open>[] + x\<close>, and a square root that holds \<^verbatim>\<open>y\<close> in its body.\<close>

definition docPlusX :: "atom list" where
  "docPlusX = [mathFirst, mathAtom ''placeholder'' [], mathAtom ''mbin'' ''+'',
              mathAtom ''mord'' ''x'']"



text \<open>The documents \<^verbatim>\<open>x^2\<close> and \<^verbatim>\<open>x_2\<close>, the script a branch of \<^verbatim>\<open>x\<close> itself.\<close>

definition docSup :: "atom list" where
  "docSup = [mathFirst,
             Atom (mkInfo ''mord'' ''math'' ''x'' PlainAtom) [] [] []
               [mathFirst, mathAtom ''mord'' ''2''] []]"

definition docSub :: "atom list" where
  "docSub = [mathFirst,
             Atom (mkInfo ''mord'' ''math'' ''x'' PlainAtom) [] [] [] []
               [mathFirst, mathAtom ''mord'' ''2'']]"

text \<open>A fraction that has a denominator \<^verbatim>\<open>b\<close> and no numerator branch.\<close>

definition docFrac :: "atom list" where
  "docFrac = [mathFirst,
              Atom (mkInfo ''genfrac'' ''math'' [] PlainAtom) [] []
                [mathFirst, mathAtom ''mord'' ''b''] [] []]"

text \<open>
  The document \<^verbatim>\<open>( x^2 ) y\<close>, the script a branch of \<^verbatim>\<open>x\<close>. The offsets: 0 the
  sentinel of the root, 1 the open fence, 2 the sentinel of the superscript, 3 \<^verbatim>\<open>2\<close>,
  4 \<^verbatim>\<open>x\<close>, 5 the close fence, 6 \<^verbatim>\<open>y\<close>.
\<close>

definition docFenceSup :: "atom list" where
  "docFenceSup =
     [mathFirst, mathAtom ''mopen'' ''('',
      Atom (mkInfo ''mord'' ''math'' ''x'' PlainAtom) [] [] []
        [mathFirst, mathAtom ''mord'' ''2''] [],
      mathAtom ''mclose'' '')'', mathAtom ''mord'' ''y'']"

text \<open>
  A fraction whose numerator is \<^verbatim>\<open>( a ) b\<close>. The offsets: 0 the sentinel of the root,
  1 the sentinel of the numerator, 2 the open fence, 3 \<^verbatim>\<open>a\<close>, 4 the close fence,
  5 \<^verbatim>\<open>b\<close>, 6 the fraction.
\<close>

definition docFracFence :: "atom list" where
  "docFracFence =
     [mathFirst,
      Atom (mkInfo ''genfrac'' ''math'' [] PlainAtom)
        [mathFirst, mathAtom ''mopen'' ''('', mathAtom ''mord'' ''a'', mathAtom ''mclose'' '')'',
         mathAtom ''mord'' ''b''] [] [] [] []]"

text \<open>
  A fraction without numerator whose denominator holds a square root, with \<^verbatim>\<open>y\<close> in
  the body of the root. The offsets: 0 the sentinel of the root, 1 the sentinel of the
  denominator, 2 the sentinel of the body of the square root, 3 \<^verbatim>\<open>y\<close>, 4 the square
  root, 5 the fraction.
\<close>

definition docFracSqrt :: "atom list" where
  "docFracSqrt =
     [mathFirst,
      Atom (mkInfo ''genfrac'' ''math'' [] PlainAtom) [] []
        [mathFirst,
         Atom (mkInfo ''surd'' ''math'' [] PlainAtom) []
           [mathFirst, mathAtom ''mord'' ''y''] [] [] []] [] []]"

subsection \<open>Predicates of the properties\<close>

text \<open>
  The step of \<^verbatim>\<open>move\<close> leaves the document: the selection is collapsed and the
  candidate offset is not in \<open>[0, lastOffset]\<close>.
\<close>

definition leavesDocument :: "model \<Rightarrow> direction \<Rightarrow> bool" where
  "leavesDocument m d =
     (anchor m = position m \<and> (moveTarget m d < 0 \<or> moveTarget m d > lastOffset m))"

text \<open>
  No correction of \<^verbatim>\<open>move\<close> applies at the atom at an offset: it is no skip
  boundary, and its parent neither captures the selection nor is a skip boundary.
\<close>

definition noCapture :: "model \<Rightarrow> int \<Rightarrow> bool" where
  "noCapture m i =
     (case at m i of
        None \<Rightarrow> True
      | Some a \<Rightarrow>
          \<not> parentFlag m captureSelection a \<and> \<not> skipBoundary (fieldsOf m a) \<and>
          \<not> parentFlag m skipBoundary a)"

text \<open>Neither the atom at an offset nor its right sibling is a placeholder.\<close>

definition noPlaceholder :: "model \<Rightarrow> int \<Rightarrow> bool" where
  "noPlaceholder m i =
     (typeAt m i \<noteq> Some ''placeholder'' \<and> rightTypeAt m i \<noteq> Some ''placeholder'')"

text \<open>
  The change of the nesting level over a run of siblings: one up for each open fence,
  one down for each close fence.
\<close>

fun fenceDepth :: "ainfo list \<Rightarrow> int" where
  "fenceDepth [] = 0"
| "fenceDepth (f # fs) =
     (if atype f = ''mopen'' then 1 else if atype f = ''mclose'' then -1 else 0) + fenceDepth fs"

text \<open>
  A run of siblings whose fences are balanced: at its end the nesting level is the one it
  started with, and at no place before is it lower.
\<close>

definition balanced :: "ainfo list \<Rightarrow> bool" where
  "balanced fs =
     (fenceDepth fs = 0 \<and> list_all (\<lambda>k. 0 \<le> fenceDepth (take k fs)) [0..<length fs])"


text \<open>An element comes before another in a list, by the first place of each.\<close>

definition precedes :: "'a list \<Rightarrow> 'a \<Rightarrow> 'a \<Rightarrow> bool" where
  "precedes xs a c = (a \<in> set xs \<and> c \<in> set xs \<and> indexOf xs a < indexOf xs c)"

text \<open>The number of offsets from an offset to the edge of the document, in a direction.\<close>

definition toEdge :: "model \<Rightarrow> direction \<Rightarrow> int \<Rightarrow> nat" where
  "toEdge m d i = (if d = Backward then nat (i + 1) else nat (int (length (atoms m)) - i))"

section \<open>The flattening\<close>

subsection \<open>Searching a list\<close>

lemma indexOf_bounds: "- 1 \<le> indexOf xs x \<and> indexOf xs x < int (length xs)"
  by (induction xs) (auto simp: Let_def)

lemma offsetOf_le_lastOffset: "offsetOf m a \<le> lastOffset m"
  using indexOf_bounds [of "atoms m"]
  by (auto simp: offsetOf_def lastOffset_def split: option.splits) 

lemma indexOf_nth: "0 \<le> indexOf xs x \<Longrightarrow> xs ! nat (indexOf xs x) = x"
proof (induction xs)
  case Nil
  then show ?case by simp
next
  case (Cons y ys)
  then show ?case by (auto simp: Let_def nat_add_distrib split: if_splits)
qed

lemma at_offsetOf: "offsetOf m (Some p) = i \<Longrightarrow> 0 \<le> i \<Longrightarrow> at m i = Some p"
  using indexOf_bounds [of "atoms m" p] indexOf_nth [of "atoms m" p]
  by (auto simp: offsetOf_def at_def)

lemma indexOf_notin: "x \<notin> set xs \<Longrightarrow> indexOf xs x = - 1"
  by (induction xs) (auto simp: Let_def)

lemma indexOf_in: "x \<in> set xs \<Longrightarrow> 0 \<le> indexOf xs x"
  by (induction xs) (auto simp: Let_def)

lemma indexOf_append:
  "indexOf (xs @ ys) x =
     (if x \<in> set xs then indexOf xs x
      else if x \<in> set ys then int (length xs) + indexOf ys x else - 1)"
proof (induction xs)
  case Nil
  then show ?case by (simp add: indexOf_notin)
next
  case (Cons y xs)
  then show ?case
    using indexOf_in [of x xs] indexOf_in [of x ys]
    by (auto simp: Let_def)
qed

lemma indexOf_map_inj: "inj f \<Longrightarrow> indexOf (map f xs) (f x) = indexOf xs x"
  by (induction xs) (auto simp: Let_def inj_eq)

lemma indexOf_distinct_nth: "distinct xs \<Longrightarrow> i < length xs \<Longrightarrow> indexOf xs (xs ! i) = int i"
proof (induction xs arbitrary: i)
  case Nil
  then show ?case by simp
next
  case (Cons y xs)
  show ?case
  proof (cases i)
    case 0
    then show ?thesis by simp
  next
    case (Suc j)
    with Cons show ?thesis by (auto simp: Let_def)
  qed
qed

subsection \<open>The paths of the flattening\<close>

lemma branchChildren_heads:
  "p \<in> set (branchChildren b k xs) \<Longrightarrow> \<exists>j q. p = (b, j) # q \<and> k \<le> j \<and> j < k + length xs"
proof (induction xs arbitrary: k)
  case Nil
  then show ?case by simp
next
  case (Cons x xs)
  from Cons.prems consider "p \<in> (#) (b, k) ` set (children x)" | "p = [(b, k)]"
    | "p \<in> set (branchChildren b (Suc k) xs)" by auto
  then show ?case
  proof cases
    case 3
    from Cons.IH [OF 3] show ?thesis by auto
  qed auto
qed

lemma mem_branchChildren:
  "p \<in> set (branchChildren b k xs) \<longleftrightarrow>
     (\<exists>j q. p = (b, k + j) # q \<and> j < length xs \<and> (q = [] \<or> q \<in> set (children (xs ! j))))"
proof (induction xs arbitrary: k)
  case Nil
  then show ?case by simp
next
  case (Cons x xs)
  show ?case (is "?L \<longleftrightarrow> ?R")
  proof
    assume ?L
    then consider "p \<in> (#) (b, k) ` set (children x)" | "p = [(b, k)]"
      | "p \<in> set (branchChildren b (Suc k) xs)" by auto
    then show ?R
    proof cases
      case 1
      then obtain q where "p = (b, k + 0) # q" "q \<in> set (children ((x # xs) ! 0))" by auto
      then show ?thesis by blast
    next
      case 2
      then have "p = (b, k + 0) # []" by simp
      then show ?thesis by blast
    next
      case 3
      then obtain j q where "p = (b, Suc k + j) # q" "j < length xs"
        "q = [] \<or> q \<in> set (children (xs ! j))" using Cons.IH by blast
      then have "p = (b, k + Suc j) # q" "Suc j < length (x # xs)"
        "q = [] \<or> q \<in> set (children ((x # xs) ! Suc j))" by simp_all
      then show ?thesis by blast
    qed
  next
    assume ?R
    then obtain j q where *: "p = (b, k + j) # q" "j < length (x # xs)"
      "q = [] \<or> q \<in> set (children ((x # xs) ! j))" by blast
    show ?L
    proof (cases j)
      case 0
      with * show ?thesis by auto
    next
      case (Suc i)
      with * have "p = (b, Suc k + i) # q" "i < length xs" "q = [] \<or> q \<in> set (children (xs ! i))"
        by simp_all
      then have "p \<in> set (branchChildren b (Suc k) xs)" using Cons.IH by blast
      then show ?thesis by simp
    qed
  qed
qed

lemma mem_children:
  "p \<in> set (children t) \<longleftrightarrow>
     (\<exists>b j q. p = (b, j) # q \<and> j < length (branchList t b) \<and>
        (q = [] \<or> q \<in> set (children (branchList t b ! j))))"
proof -
  obtain i a bo be su sb where t: "t = Atom i a bo be su sb" by (cases t)
  have "p \<in> set (children t) \<longleftrightarrow> (\<exists>b. p \<in> set (branchChildren b 0 (branchList t b)))"
  proof
    assume "p \<in> set (children t)"
    then consider "p \<in> set (branchChildren Above 0 (branchList t Above))"
      | "p \<in> set (branchChildren Body 0 (branchList t Body))"
      | "p \<in> set (branchChildren Below 0 (branchList t Below))"
      | "p \<in> set (branchChildren Superscript 0 (branchList t Superscript))"
      | "p \<in> set (branchChildren Subscript 0 (branchList t Subscript))"
      by (auto simp: t)
    then show "\<exists>b. p \<in> set (branchChildren b 0 (branchList t b))" by cases blast+
  next
    assume "\<exists>b. p \<in> set (branchChildren b 0 (branchList t b))"
    then obtain b where "p \<in> set (branchChildren b 0 (branchList t b))" ..
    then show "p \<in> set (children t)" by (cases b) (auto simp: t)
  qed
  also have "\<dots> \<longleftrightarrow> (\<exists>b j q. p = (b, j) # q \<and> j < length (branchList t b) \<and>
        (q = [] \<or> q \<in> set (children (branchList t b ! j))))"
    by (simp add: mem_branchChildren)
  finally show ?thesis .
qed

lemma children_valid: "p \<in> set (children t) \<longleftrightarrow> p \<noteq> [] \<and> getAtom t p \<noteq> None"
proof (induction p arbitrary: t)
  case Nil
  show ?case by (subst mem_children) simp
next
  case (Cons bk q)
  obtain b k where bk: "bk = (b, k)" by (cases bk)
  show ?case
  proof (cases "k < length (branchList t b)")
    case True
    have "(b, k) # q \<in> set (children t) \<longleftrightarrow> q = [] \<or> q \<in> set (children (branchList t b ! k))"
      using True by (subst mem_children) auto
    also have "\<dots> \<longleftrightarrow> getAtom (branchList t b ! k) q \<noteq> None"
      using Cons.IH [of "branchList t b ! k"] by (cases q) auto
    finally show ?thesis using True by (simp add: bk)
  next
    case False
    then show ?thesis by (subst mem_children) (auto simp: bk)
  qed
qed

lemma getAtom_append:
  "getAtom t (p @ q) = (case getAtom t p of None \<Rightarrow> None | Some x \<Rightarrow> getAtom x q)"
  by (induction p arbitrary: t) auto

lemma children_not_Nil: "[] \<notin> set (children t)"
  by (simp add: children_valid)

lemma distinct_children: "distinct (children t)"
  and distinct_branchChildren: "distinct (branchChildren b k xs)"
proof (induction t and b k xs rule: children_branchChildren.induct)
  case (1 i a bo be su sb)
  have disj: "set (branchChildren b k xs) \<inter> set (branchChildren b' k' ys) = {}"
    if "b \<noteq> b'" for b b' k k' and xs ys :: "atom list"
  proof -
    have "p \<notin> set (branchChildren b' k' ys)" if "p \<in> set (branchChildren b k xs)" for p
      using branchChildren_heads [OF that] branchChildren_heads [of p b' k' ys] \<open>b \<noteq> b'\<close>
      by auto
    then show ?thesis by blast
  qed
  from 1 show ?case by (simp add: disj Int_Un_distrib)
next
  case (2 b k)
  then show ?case by simp
next
  case (3 b k x xs)
  have a: "distinct (map ((#) (b, k)) (children x))"
    using 3(1) by (simp add: distinct_map)
  have b: "[(b, k)] \<notin> (#) (b, k) ` set (children x)"
    using children_not_Nil [of x] by auto
  have c: "[(b, k)] \<notin> set (branchChildren b (Suc k) xs)"
    using branchChildren_heads [of "[(b, k)]" b "Suc k" xs] by auto
  have d: "(#) (b, k) ` set (children x) \<inter> set (branchChildren b (Suc k) xs) = {}"
  proof -
    have "p \<notin> (#) (b, k) ` set (children x)" if "p \<in> set (branchChildren b (Suc k) xs)" for p
      using branchChildren_heads [OF that] by auto
    then show ?thesis by blast
  qed
  from a b c d 3(2) show ?case by simp
qed

lemma at_offsetOf_inverse: "at m i = Some p \<Longrightarrow> offsetOf m (Some p) = i"
  using indexOf_distinct_nth [of "atoms m" "nat i"] distinct_children [of "root m"]
  by (auto simp: at_def offsetOf_def atoms_def split: if_splits)

lemma at_mem: "at m i = Some p \<Longrightarrow> p \<in> set (atoms m)"
  using nth_mem [of "nat i" "atoms m"] by (auto simp: at_def split: if_splits)

lemma at_in_range: "at m i = Some p \<Longrightarrow> 0 \<le> i \<and> i \<le> lastOffset m"
  by (auto simp: at_def lastOffset_def split: if_splits)

lemma at_valid: "at m i = Some p \<Longrightarrow> p \<noteq> [] \<and> getAtom (root m) p \<noteq> None"
  using children_valid [of p "root m"] at_mem [of m i p] by (simp add: atoms_def)

lemma offsetOf_valid:
  "p \<noteq> [] \<Longrightarrow> getAtom (root m) p \<noteq> None \<Longrightarrow> 0 \<le> offsetOf m (Some p) \<and> at m (offsetOf m (Some p)) = Some p"
  using children_valid [of p "root m"] indexOf_in [of p "atoms m"] at_offsetOf [of m p]
  by (auto simp: atoms_def offsetOf_def)

subsection \<open>The order of siblings in the flattening\<close>

lemma precedes_append_left: "precedes xs a c \<Longrightarrow> precedes (xs @ ys) a c"
  by (simp add: precedes_def indexOf_append)

lemma precedes_append_right:
  "a \<notin> set xs \<Longrightarrow> c \<notin> set xs \<Longrightarrow> precedes ys a c \<Longrightarrow> precedes (xs @ ys) a c"
  by (simp add: precedes_def indexOf_append)

lemma precedes_append_split:
  "a \<in> set xs \<Longrightarrow> c \<notin> set xs \<Longrightarrow> c \<in> set ys \<Longrightarrow> precedes (xs @ ys) a c"
  using indexOf_bounds [of xs a] indexOf_in [of c ys]
  by (simp add: precedes_def indexOf_append)

lemma precedes_map: "inj f \<Longrightarrow> precedes xs a c \<Longrightarrow> precedes (map f xs) (f a) (f c)"
  by (simp add: precedes_def indexOf_map_inj)

lemma precedes_branchChildren_inside:
  "j < length xs \<Longrightarrow> precedes (children (xs ! j)) a c \<Longrightarrow>
   precedes (branchChildren b k xs) ((b, k + j) # a) ((b, k + j) # c)"
proof (induction xs arbitrary: k j)
  case Nil
  then show ?case by simp
next
  case (Cons x xs)
  show ?case
  proof (cases j)
    case 0
    with Cons.prems have "precedes (map ((#) (b, k)) (children x)) ((b, k) # a) ((b, k) # c)"
      by (simp add: precedes_map)
    then show ?thesis using 0 by (simp add: precedes_append_left)
  next
    case (Suc i)
    with Cons.prems Cons.IH [of i "Suc k"]
    have ih: "precedes (branchChildren b (Suc k) xs) ((b, k + j) # a) ((b, k + j) # c)"
      by simp
    have n: "(b, k + j) # q \<notin> set (map ((#) (b, k)) (children x) @ [[(b, k)]])" for q
      using Suc by auto
    from precedes_append_right [OF n n ih] show ?thesis by simp
  qed
qed

lemma precedes_branchChildren_next:
  "Suc j < length xs \<Longrightarrow> precedes (branchChildren b k xs) [(b, k + j)] [(b, Suc (k + j))]"
proof (induction xs arbitrary: k j)
  case Nil
  then show ?case by simp
next
  case (Cons x xs)
  show ?case
  proof (cases j)
    case 0
    from Cons.prems 0 obtain y ys where xs: "xs = y # ys" by (cases xs) auto
    have 1: "[(b, k)] \<notin> set (map ((#) (b, k)) (children x))"
      "[(b, Suc k)] \<notin> set (map ((#) (b, k)) (children x))"
      using children_not_Nil [of x] by auto
    have 2: "[(b, Suc k)] \<in> set (branchChildren b (Suc k) xs)" by (simp add: xs)
    have "precedes ([[(b, k)]] @ branchChildren b (Suc k) xs) [(b, k)] [(b, Suc k)]"
      using 2 by (intro precedes_append_split) auto
    from precedes_append_right [OF 1 this] show ?thesis using 0 by simp
  next
    case (Suc i)
    with Cons.prems Cons.IH [of i "Suc k"]
    have ih: "precedes (branchChildren b (Suc k) xs) [(b, k + j)] [(b, Suc (k + j))]"
      by simp
    have n: "(b, k + j) # q \<notin> set (map ((#) (b, k)) (children x) @ [[(b, k)]])"
      "(b, Suc (k + j)) # q \<notin> set (map ((#) (b, k)) (children x) @ [[(b, k)]])" for q
      using Suc by auto
    from precedes_append_right [OF n ih] show ?thesis by simp
  qed
qed

lemma precedes_children:
  assumes "precedes (branchChildren b 0 (branchList t b)) a c"
  shows "precedes (children t) a c"
proof -
  obtain i ab bo be su sb where t: "t = Atom i ab bo be su sb" by (cases t)
  have other: "a \<notin> set (branchChildren b' k ys)" "c \<notin> set (branchChildren b' k ys)"
    if "b' \<noteq> b" for b' k ys
    using assms that branchChildren_heads [of a b 0 "branchList t b"]
      branchChildren_heads [of c b 0 "branchList t b"]
      branchChildren_heads [of a b' k ys] branchChildren_heads [of c b' k ys]
    by (auto simp: precedes_def)
  show ?thesis
  proof (cases b)
    case Above
    with assms show ?thesis by (simp add: t precedes_append_left)
  next
    case Body
    with assms other show ?thesis
      by (simp add: t precedes_append_left precedes_append_right)
  next
    case Below
    with assms other show ?thesis
      by (simp add: t precedes_append_left precedes_append_right)
  next
    case Superscript
    with assms other show ?thesis
      by (simp add: t precedes_append_left precedes_append_right)
  next
    case Subscript
    with assms other show ?thesis
      by (simp add: t precedes_append_left precedes_append_right)
  qed
qed

lemma precedes_next_sibling:
  "getAtom t q = Some x \<Longrightarrow> Suc k < length (branchList x b) \<Longrightarrow>
   precedes (children t) (q @ [(b, k)]) (q @ [(b, Suc k)])"
proof (induction q arbitrary: t)
  case Nil
  then show ?case
    using precedes_branchChildren_next [of k "branchList t b" b 0]
    by (simp add: precedes_children)
next
  case (Cons bk q)
  obtain b' k' where bk: "bk = (b', k')" by (cases bk)
  from Cons.prems have k': "k' < length (branchList t b')"
    and g: "getAtom (branchList t b' ! k') q = Some x"
    by (auto simp: bk split: if_splits)
  from Cons.IH [OF g Cons.prems(2)]
  have "precedes (children (branchList t b' ! k')) (q @ [(b, k)]) (q @ [(b, Suc k)])" .
  from precedes_branchChildren_inside [OF k' this, of b' 0]
  show ?case by (simp add: bk precedes_children)
qed

lemma valid_sibIndex:
  assumes "p \<noteq> []" and "getAtom (root m) p \<noteq> None"
  shows "\<exists>x. getAtom (root m) (butlast p) = Some x \<and> siblings m p = branchList x (fst (last p)) \<and>
             sibIndex p < length (siblings m p)"
proof -
  obtain b k where l: "last p = (b, k)" by (cases "last p")
  have "getAtom (root m) (butlast p @ [(b, k)]) \<noteq> None"
    using assms l append_butlast_last_id [of p] by simp
  then obtain x where "getAtom (root m) (butlast p) = Some x" "k < length (branchList x b)"
    by (auto simp: getAtom_append split: option.splits if_splits)
  then show ?thesis using assms(1) l by (simp add: siblings_def sibIndex_def)
qed

lemma right_after:
  assumes "at m i = Some p" and "rightSibling m p = Some r"
  shows "i < offsetOf m (Some r) \<and> at m (offsetOf m (Some r)) = Some r"
proof -
  from at_valid [OF assms(1)] have v: "p \<noteq> []" "getAtom (root m) p \<noteq> None" by simp_all
  from valid_sibIndex [OF v] obtain x where x: "getAtom (root m) (butlast p) = Some x"
    "siblings m p = branchList x (fst (last p))" by blast
  from assms(2) have k: "Suc (sibIndex p) < length (siblings m p)"
    and r: "r = butlast p @ [(fst (last p), Suc (sibIndex p))]"
    by (auto simp: rightSibling_def split: if_splits)
  have p: "p = butlast p @ [(fst (last p), sibIndex p)]" using v(1) by (simp add: sibIndex_def)
  from precedes_next_sibling [OF x(1), of "sibIndex p" "fst (last p)"] k x(2)
  have "precedes (children (root m)) p r" using p r by simp
  then have "indexOf (atoms m) p < indexOf (atoms m) r" "r \<in> set (atoms m)"
    by (simp_all add: precedes_def atoms_def)
  moreover have "indexOf (atoms m) p = i"
    using at_offsetOf_inverse [OF assms(1)] by (simp add: offsetOf_def)
  ultimately show ?thesis
    using at_offsetOf [of m r "offsetOf m (Some r)"] indexOf_in [of r "atoms m"]
    by (simp add: offsetOf_def)
qed

lemma left_before:
  assumes "at m i = Some p" and "leftSibling m p = Some q"
  shows "offsetOf m (Some q) < i"
proof -
  from at_valid [OF assms(1)] have v: "p \<noteq> []" "getAtom (root m) p \<noteq> None" by simp_all
  from valid_sibIndex [OF v] obtain x where x: "getAtom (root m) (butlast p) = Some x"
    "siblings m p = branchList x (fst (last p))" "sibIndex p < length (siblings m p)" by blast
  from assms(2) have k: "sibIndex p \<noteq> 0"
    and q: "q = butlast p @ [(fst (last p), sibIndex p - 1)]"
    by (auto simp: leftSibling_def split: if_splits)
  have p: "p = butlast p @ [(fst (last p), Suc (sibIndex p - 1))]"
    using v(1) k by (simp add: sibIndex_def)
  from precedes_next_sibling [OF x(1), of "sibIndex p - 1" "fst (last p)"] k x(2,3)
  have "precedes (children (root m)) q p" using p q by simp
  then have "indexOf (atoms m) q < indexOf (atoms m) p"
    by (simp_all add: precedes_def atoms_def)
  moreover have "indexOf (atoms m) p = i"
    using at_offsetOf_inverse [OF assms(1)] by (simp add: offsetOf_def)
  ultimately show ?thesis by (simp add: offsetOf_def)
qed

lemma leftOffset_less: "0 \<le> i \<Longrightarrow> leftOffset m i < i"
proof (cases "Option.bind (at m i) (leftSibling m)")
  case None
  assume "0 \<le> i"
  with None show ?thesis by (simp add: leftOffset_def offsetOf_def)
next
  case (Some q)
  then obtain p where "at m i = Some p" "leftSibling m p = Some q"
    by (cases "at m i") auto
  from left_before [OF this] Some show ?thesis by (simp add: leftOffset_def)
qed

lemma siblings_le: "length (siblings m p) \<le> length (atoms m)"
proof (cases "p = [] \<or> getAtom (root m) (butlast p) = None")
  case True
  then show ?thesis by (auto simp: siblings_def)
next
  case False
  then obtain x where x: "getAtom (root m) (butlast p) = Some x" and p: "p \<noteq> []" by auto
  let ?b = "fst (last p)"
  let ?f = "\<lambda>j. butlast p @ [(?b, j)]"
  have s: "siblings m p = branchList x ?b" using x p by (simp add: siblings_def)
  have "?f ` {..<length (branchList x ?b)} \<subseteq> set (atoms m)"
    using x by (auto simp: atoms_def children_valid getAtom_append)
  then have "card (?f ` {..<length (branchList x ?b)}) \<le> card (set (atoms m))"
    by (intro card_mono) auto
  moreover have "inj_on ?f {..<length (branchList x ?b)}" by (auto simp: inj_on_def)
  ultimately have "length (branchList x ?b) \<le> card (set (atoms m))"
    by (simp add: card_image)
  also have "\<dots> \<le> length (atoms m)" by (rule card_length)
  finally show ?thesis by (simp add: s)
qed

subsection \<open>Models with the same tree\<close>

lemma same_root:
  assumes "root m' = root m"
  shows "atoms m' = atoms m" "lastOffset m' = lastOffset m" "at m' = at m"
    "fieldsOf m' = fieldsOf m" "siblings m' = siblings m" "rightSibling m' = rightSibling m"
    "typeAt m' = typeAt m" "rightTypeAt m' = rightTypeAt m" "parentFlag m' = parentFlag m"
    "offsetOf m' = offsetOf m" "isFirstSibling m' = isFirstSibling m"
    "noCapture m' = noCapture m" "noPlaceholder m' = noPlaceholder m"
proof -
  show a: "atoms m' = atoms m" using assms by (simp add: atoms_def)
  show "lastOffset m' = lastOffset m" by (simp add: lastOffset_def a)
  show t: "at m' = at m" by (simp add: at_def a fun_eq_iff)
  show f: "fieldsOf m' = fieldsOf m" using assms by (simp add: fieldsOf_def fun_eq_iff)
  show s: "siblings m' = siblings m" using assms by (simp add: siblings_def fun_eq_iff)
  show r: "rightSibling m' = rightSibling m" by (simp add: rightSibling_def s fun_eq_iff)
  show ty: "typeAt m' = typeAt m" by (simp add: typeAt_def t f fun_eq_iff)
  show rt: "rightTypeAt m' = rightTypeAt m" by (simp add: rightTypeAt_def t f r fun_eq_iff)
  show pf: "parentFlag m' = parentFlag m" by (simp add: parentFlag_def f fun_eq_iff cong: option.case_cong)
  show "offsetOf m' = offsetOf m" by (simp add: offsetOf_def a fun_eq_iff cong: option.case_cong)
  show "isFirstSibling m' = isFirstSibling m" by (simp add: isFirstSibling_def fun_eq_iff)
  show "noCapture m' = noCapture m" by (simp add: noCapture_def t f pf fun_eq_iff cong: option.case_cong)
  show "noPlaceholder m' = noPlaceholder m" by (simp add: noPlaceholder_def ty rt fun_eq_iff)
qed

section \<open>Properties of move\<close>

subsection \<open>The result of move\<close>

lemma move_plain:
  "d = Forward \<or> d = Backward \<Longrightarrow> \<not> selectionIsPlaceholder (clearSuggestion e m) \<Longrightarrow>
   move e m d False = Some (Inr (moveStep e (clearSuggestion e m) d))"
  by (subst move.simps) auto

lemma move_extend:
  "d = Forward \<or> d = Backward \<Longrightarrow>
   move e m d True = Some (Inr (extendSelection e (clearSuggestion e m) d))"
  by (subst move.simps) auto

lemma moveStep_cases:
  "moveStep e m d =
     (if anchor m \<noteq> position m
      then (True, announce (snd (collapseSelection m d)) ''move'' (Some (position m)))
      else if moveTarget m d < 0 \<or> moveTarget m d > lastOffset m
      then (if suppressChangeNotifications m then (True, announce m ''plonk'' None)
            else if fst (moveOut e m d)
            then (True, announce (snd (moveOut e m d)) ''plonk'' None)
            else (False, snd (moveOut e m d)))
      else (True, announce (movePlace m (moveTarget m d)) ''move'' (Some (position m))))"
  by (simp add: moveStep_def collapseSelection_def Let_def split: prod.splits)

lemma setPosition_in_range:
  "0 \<le> v \<Longrightarrow> v \<le> lastOffset m \<Longrightarrow> setPosition m v = m\<lparr>position := v, anchor := v\<rparr>"
  by (simp add: setPosition_def setSelection_def)


text \<open>
  C1, as the code has it. \<^verbatim>\<open>move\<close> begins by clearing a pending command
  suggestion; let \<open>m1\<close> be the model this leaves. A forward or backward \<^verbatim>\<open>move\<close>
  without extension, on a selection of \<open>m1\<close> that is not a placeholder selection,
  returns, and it returns false exactly when the step leaves the document,
  notifications are not suppressed and the \<^verbatim>\<open>moveOut\<close> hook answers false. The model
  is then \<open>m1\<close> as the hook leaves it: \<^verbatim>\<open>move\<close> itself changes nothing more and
  announces nothing. When the step leaves the document and the call returns true (the
  hook answered true, or notifications are suppressed and the hook was not called),
  \<^verbatim>\<open>move\<close> announces the soft-fail and changes nothing else. With extension the
  call returns what \<^verbatim>\<open>extendSelection\<close> reports on \<open>m1\<close>.
\<close>

theorem move_false_iff:
  assumes "d = Forward \<or> d = Backward"
    and "\<not> selectionIsPlaceholder (clearSuggestion e m)"
  shows "(\<exists>r m'. move e m d False = Some (Inr (r, m')) \<and>
     (r = False \<longleftrightarrow>
        leavesDocument (clearSuggestion e m) d \<and>
        \<not> suppressChangeNotifications (clearSuggestion e m) \<and>
        \<not> fst (moveOut e (clearSuggestion e m) d)) \<and>
     (r = False \<longrightarrow> m' = snd (moveOut e (clearSuggestion e m) d)) \<and>
     (r = True \<and> leavesDocument (clearSuggestion e m) d \<longrightarrow>
        m' = announce (if suppressChangeNotifications (clearSuggestion e m)
                       then clearSuggestion e m
                       else snd (moveOut e (clearSuggestion e m) d)) ''plonk'' None)) \<and>
     move e m d True = Some (Inr (extendSelection e (clearSuggestion e m) d))"
  using assms by (auto simp: move_plain move_extend moveStep_cases leavesDocument_def)

text \<open>
  Two instances. On the document that holds its sentinel only, with a hook that answers
  false and leaves the model alone, \<^verbatim>\<open>move(forward)\<close> returns false and the state is
  the one before the call. On \<^verbatim>\<open>a\<close> followed by a pending suggestion, with the cursor
  after \<^verbatim>\<open>a\<close> and a hook that answers false and moves the cursor to offset 0, it
  returns false as well, and the state is not the one before the call: the suggestion
  is gone and the cursor is where the hook has put it.
\<close>

theorem move_false_iff_witness:
  "(Forward = Forward \<or> Forward = Backward) \<and>
   \<not> selectionIsPlaceholder
       (clearSuggestion (mkEnv False True 1 [] None) (mkModel [mathFirst] 0)) \<and>
   move (mkEnv False True 1 [] None) (mkModel [mathFirst] 0) Forward False =
     Some (Inr (False, mkModel [mathFirst] 0)) \<and>
   \<not> selectionIsPlaceholder (clearSuggestion suggestingEnv (mkModel docSuggestion 1)) \<and>
   clearSuggestion suggestingEnv (mkModel docSuggestion 1) =
     mkModel [mathFirst, mathAtom ''mord'' ''a''] 1 \<and>
   move suggestingEnv (mkModel docSuggestion 1) Forward False =
     Some (Inr (False, mkModel [mathFirst, mathAtom ''mord'' ''a''] 0))"
proof -
  let ?e = "mkEnv False True 1 [] None" and ?m = "mkModel [mathFirst] 0"
  let ?n = "mkModel docSuggestion 1" and ?n1 = "mkModel [mathFirst, mathAtom ''mord'' ''a''] 1"
  have c: "clearSuggestion ?e ?m = ?m" by (simp add: mkEnv_def)
  have p: "\<not> selectionIsPlaceholder (clearSuggestion ?e ?m)"
    unfolding c by code_simp
  have l: "leavesDocument ?m Forward" by code_simp
  have s: "\<not> suppressChangeNotifications ?m" "moveOut ?e ?m Forward = (False, ?m)"
    by (simp_all add: mkModel_def mkEnv_def)
  from move_false_iff [of Forward ?e ?m, OF _ p] l s c p
  have 1: "move ?e ?m Forward False = Some (Inr (False, ?m))" by auto
  have c2: "clearSuggestion suggestingEnv ?n = ?n1"
    by (simp add: suggestingEnv_def mkEnv_def dropSuggestions_def mkModel_def docSuggestion_def
        mathFirst_def mathAtom_def leaf_def mkInfo_def)
  have p2: "\<not> selectionIsPlaceholder (clearSuggestion suggestingEnv ?n)"
    unfolding c2 by code_simp
  have l2: "leavesDocument ?n1 Forward" by code_simp
  have s2: "\<not> suppressChangeNotifications ?n1"
    "moveOut suggestingEnv ?n1 Forward = (False, mkModel [mathFirst, mathAtom ''mord'' ''a''] 0)"
    by code_simp+
  from move_false_iff [of Forward suggestingEnv ?n, OF _ p2] l2 s2 c2
  have 2: "move suggestingEnv ?n Forward False =
      Some (Inr (False, mkModel [mathFirst, mathAtom ''mord'' ''a''] 0))" by auto
  from 1 2 p p2 c2 show ?thesis by blast
qed

text \<open>
  C1 as the spec states it fails on the document that holds its sentinel only, at the
  step forward from offset 0: where the hook answers true the call returns true, though
  nothing changed and the soft-fail was announced; where the hook answers false the call
  returns false, and no soft-fail was announced.
\<close>

theorem move_false_counterexample:
  "move (mkEnv True True 1 [] None) (mkModel [mathFirst] 0) Forward False =
     Some (Inr (True, announce (mkModel [mathFirst] 0) ''plonk'' None)) \<and>
   move (mkEnv False True 1 [] None) (mkModel [mathFirst] 0) Forward False =
     Some (Inr (False, mkModel [mathFirst] 0))"
  by code_simp

subsection \<open>Moving forward and back\<close>









subsection \<open>Placeholders under move\<close>

lemma setSelection_in_range:
  "0 \<le> a \<Longrightarrow> a \<le> lastOffset m \<Longrightarrow> 0 \<le> p \<Longrightarrow> p \<le> lastOffset m \<Longrightarrow>
   snd (setSelection m a p) = m\<lparr>position := p, anchor := a\<rparr>"
  by (simp add: setSelection_def)

text \<open>
  C6, as the code has it. Take a forward or backward \<^verbatim>\<open>move\<close> without extension, on
  a collapsed selection, whose destination is in the document, offset 0 included. If
  the atom at the destination is a placeholder, at an offset other than 0 (the slot of
  the root's sentinel, which has no offset before it), the move succeeds and the
  selection is exactly that atom: from the offset before it to its own. If the atom at
  the destination is not a placeholder, but its right sibling is a placeholder that
  takes the next offset, the move succeeds and the selection is exactly that sibling.
  Both hold in both directions, and the test of the destination comes first.
\<close>

theorem move_selects_placeholder:
  assumes dir: "d = Forward \<or> d = Backward"
    and coll: "anchor (clearSuggestion e m) = position (clearSuggestion e m)"
    and inb: "0 \<le> moveTarget (clearSuggestion e m) d"
      "moveTarget (clearSuggestion e m) d \<le> lastOffset (clearSuggestion e m)"
  shows "(0 < moveTarget (clearSuggestion e m) d \<and>
          typeAt (clearSuggestion e m) (moveTarget (clearSuggestion e m) d) = Some ''placeholder'' \<longrightarrow>
           (\<exists>m'. move e m d False = Some (Inr (True, m')) \<and>
                 position m' = moveTarget (clearSuggestion e m) d \<and>
                 anchor m' = position m' - 1 \<and>
                 typeAt m' (position m') = Some ''placeholder'')) \<and>
         (typeAt (clearSuggestion e m) (moveTarget (clearSuggestion e m) d) \<noteq> Some ''placeholder'' \<and>
          rightTypeAt (clearSuggestion e m) (moveTarget (clearSuggestion e m) d) = Some ''placeholder'' \<and>
          offsetOf (clearSuggestion e m)
            (Option.bind (at (clearSuggestion e m) (moveTarget (clearSuggestion e m) d))
               (rightSibling (clearSuggestion e m))) = moveTarget (clearSuggestion e m) d + 1 \<longrightarrow>
           (\<exists>m'. move e m d False = Some (Inr (True, m')) \<and>
                 position m' = moveTarget (clearSuggestion e m) d + 1 \<and>
                 anchor m' = position m' - 1 \<and>
                 at m' (position m') =
                   Option.bind (at m' (moveTarget (clearSuggestion e m) d)) (rightSibling m') \<and>
                 rightTypeAt m' (moveTarget (clearSuggestion e m) d) = Some ''placeholder''))"
proof -
  define m1 where "m1 = clearSuggestion e m"
  define pos where "pos = moveTarget m1 d"
  have np: "\<not> selectionIsPlaceholder m1" using coll by (simp add: selectionIsPlaceholder_def m1_def)
  have mv: "move e m d False =
      Some (Inr (True, announce (movePlace m1 pos) ''move'' (Some (position m1))))"
    using dir np coll inb by (simp add: move_plain moveStep_cases m1_def pos_def)
  have A: "0 < pos \<Longrightarrow> typeAt m1 pos = Some ''placeholder'' \<Longrightarrow>
      movePlace m1 pos = m1\<lparr>position := pos, anchor := pos - 1\<rparr>"
    using inb by (simp add: movePlace_def setSelection_in_range m1_def pos_def)
  have B: "typeAt m1 pos \<noteq> Some ''placeholder'' \<Longrightarrow> rightTypeAt m1 pos = Some ''placeholder'' \<Longrightarrow>
      offsetOf m1 (Option.bind (at m1 pos) (rightSibling m1)) = pos + 1 \<Longrightarrow>
      movePlace m1 pos = m1\<lparr>position := pos + 1, anchor := pos\<rparr>"
    using inb offsetOf_le_lastOffset [of m1 "Option.bind (at m1 pos) (rightSibling m1)"]
    by (simp add: movePlace_def setSelection_in_range m1_def pos_def)
  have r: "\<And>x p a. root (m1\<lparr>position := p, anchor := a, announced := x\<rparr>) = root m1"
    by simp
  have C: "rightTypeAt m1 pos = Some ''placeholder'' \<Longrightarrow>
      offsetOf m1 (Option.bind (at m1 pos) (rightSibling m1)) = pos + 1 \<Longrightarrow>
      at m1 (pos + 1) = Option.bind (at m1 pos) (rightSibling m1)"
    using inb at_offsetOf [of m1 _ "pos + 1"]
    by (cases "Option.bind (at m1 pos) (rightSibling m1)")
       (auto simp: rightTypeAt_def pos_def m1_def)
  show ?thesis
    unfolding m1_def [symmetric] pos_def [symmetric]
    using A B C by (auto simp: mv same_root [OF r] announce_def)
qed


theorem move_selects_placeholder_witness:
  "moveTarget (mkModel docAPB 1) Forward = 2 \<and>
   typeAt (mkModel docAPB 1) 2 = Some ''placeholder'' \<and>
   (\<exists>m'. move (mkEnv True True 1 [] None) (mkModel docAPB 1) Forward False =
            Some (Inr (True, m')) \<and> position m' = 2 \<and> anchor m' = 1) \<and>
   moveTarget (mkModel docAPB 2) Backward = 1 \<and>
   typeAt (mkModel docAPB 2) 1 \<noteq> Some ''placeholder'' \<and>
   rightTypeAt (mkModel docAPB 2) 1 = Some ''placeholder'' \<and>
   (\<exists>m'. move (mkEnv True True 1 [] None) (mkModel docAPB 2) Backward False =
            Some (Inr (True, m')) \<and> position m' = 2 \<and> anchor m' = 1) \<and>
   moveTarget (mkModel docPlusX 1) Backward = 0 \<and>
   typeAt (mkModel docPlusX 1) 0 \<noteq> Some ''placeholder'' \<and>
   rightTypeAt (mkModel docPlusX 1) 0 = Some ''placeholder'' \<and>
   (\<exists>m'. move (mkEnv True True 1 [] None) (mkModel docPlusX 1) Backward False =
            Some (Inr (True, m')) \<and> position m' = 1 \<and> anchor m' = 0)"
proof -
  let ?e = "mkEnv True True 1 [] None"
  let ?m = "mkModel docAPB 1" and ?n = "mkModel docAPB 2" and ?k = "mkModel docPlusX 1"
  have c: "clearSuggestion ?e ?m = ?m" "clearSuggestion ?e ?n = ?n" "clearSuggestion ?e ?k = ?k"
    by (simp_all add: mkEnv_def)
  have p: "anchor ?m = position ?m" "anchor ?n = position ?n" "anchor ?k = position ?k"
    by (simp_all add: mkModel_def)
  have l: "lastOffset ?m = 3" "lastOffset ?n = 3" "lastOffset ?k = 3" by code_simp+
  have t: "moveTarget ?m Forward = 2" "moveTarget ?n Backward = 1" "moveTarget ?k Backward = 0"
    by code_simp+
  have ty: "typeAt ?m 2 = Some ''placeholder''" "typeAt ?n 1 \<noteq> Some ''placeholder''"
    "rightTypeAt ?n 1 = Some ''placeholder''"
    "offsetOf ?n (Option.bind (at ?n 1) (rightSibling ?n)) = 1 + 1" by code_simp+
  have tk: "typeAt ?k 0 \<noteq> Some ''placeholder''" "rightTypeAt ?k 0 = Some ''placeholder''"
    "offsetOf ?k (Option.bind (at ?k 0) (rightSibling ?k)) = 0 + 1" by code_simp+
  from move_selects_placeholder [of Forward ?e ?m] c p l t ty
  have F: "\<exists>m'. move ?e ?m Forward False = Some (Inr (True, m')) \<and> position m' = 2 \<and> anchor m' = 1"
    by auto
  from move_selects_placeholder [of Backward ?e ?n] c p l t ty
  have B: "\<exists>m'. move ?e ?n Backward False = Some (Inr (True, m')) \<and> position m' = 2 \<and> anchor m' = 1"
    by auto
  from move_selects_placeholder [of Backward ?e ?k] c p l t tk
  have Z: "\<exists>m'. move ?e ?k Backward False = Some (Inr (True, m')) \<and> position m' = 1 \<and> anchor m' = 0"
    by auto
  from F B Z t ty tk show ?thesis by blast
qed

text \<open>
  C6 as the spec states it fails backward between two placeholders. In \<^verbatim>\<open>[] []\<close>,
  backward from offset 2, the destination is offset 1 and its right sibling, at offset 2,
  is a placeholder; the move does not select that sibling (anchor 1, position 2) but the
  destination, itself a placeholder (anchor 0, position 1).
\<close>

theorem move_selects_placeholder_counterexample:
  "at (mkModel docPP 2) 1 = Some [(Body, 1)] \<and>
   rightSibling (mkModel docPP 2) [(Body, 1)] = Some [(Body, 2)] \<and>
   atype (fieldsOf (mkModel docPP 2) [(Body, 2)]) = ''placeholder'' \<and>
   offsetOf (mkModel docPP 2) (Some [(Body, 2)]) = 2 \<and>
   move (mkEnv True True 1 [] None) (mkModel docPP 2) Backward False =
     Some (Inr (True, (mkModel docPP 1)\<lparr>anchor := 0, announced := [(''move'', Some 2)]\<rparr>))"
  by code_simp

section \<open>Properties of skip\<close>

subsection \<open>Skipping by words\<close>

text \<open>
  C5. In the text run "blue yellow" (offset 0 is the sentinel, offsets 1 to 4 are the
  letters of "blue", offset 5 is the space, offsets 6 to 11 the letters of "yellow"),
  \<^verbatim>\<open>skip(forward)\<close> with the cursor at offset 0 succeeds and puts the cursor at offset
  4, just after "blue" and before the space; \<^verbatim>\<open>skip(forward)\<close> from there succeeds
  and puts the cursor at offset 11, just after "yellow". Each announces the move.
\<close>

theorem skip_blue_yellow:
  "skip (mkEnv True True 1 [] None) (mkModel (textRun ''blue yellow'') 0) Forward False =
     Some (Inr (True, (mkModel (textRun ''blue yellow'') 4)\<lparr>announced := [(''move'', Some 0)]\<rparr>))
   \<and> skip (mkEnv True True 1 [] None)
       ((mkModel (textRun ''blue yellow'') 4)\<lparr>announced := [(''move'', Some 0)]\<rparr>) Forward False =
     Some (Inr (True, (mkModel (textRun ''blue yellow'') 11)
                        \<lparr>announced := [(''move'', Some 0), (''move'', Some 4)]\<rparr>))"
  by code_simp

subsection \<open>Skipping over balanced fences\<close>

lemma fenceDepth_append: "fenceDepth (xs @ ys) = fenceDepth xs + fenceDepth ys"
  by (induction xs) simp_all

lemma balanced_take: "balanced body \<Longrightarrow> k \<le> length body \<Longrightarrow> 0 \<le> fenceDepth (take k body)"
  by (cases "k = length body") (auto simp: balanced_def list_all_iff)

lemma sib_siblings:
  "getAtom (root m) par = Some t \<Longrightarrow> siblings m (par @ [(b, k)]) = branchList t b"
  by (simp add: siblings_def)

lemma sib_rightSibling:
  "getAtom (root m) par = Some t \<Longrightarrow>
   rightSibling m (par @ [(b, k)]) =
     (if Suc k < length (branchList t b) then Some (par @ [(b, Suc k)]) else None)"
  by (simp add: rightSibling_def sib_siblings sibIndex_def)

lemma sib_leftSibling:
  "leftSibling m (par @ [(b, k)]) = (if k = 0 then None else Some (par @ [(b, k - 1)]))"
  by (simp add: leftSibling_def sibIndex_def)

lemma sib_isLastSibling:
  "getAtom (root m) par = Some t \<Longrightarrow>
   isLastSibling m (par @ [(b, k)]) = (Suc k = length (branchList t b))"
  by (simp add: isLastSibling_def sib_siblings sibIndex_def)

lemma sib_fieldsOf:
  "getAtom (root m) par = Some t \<Longrightarrow> k < length (branchList t b) \<Longrightarrow>
   fieldsOf m (par @ [(b, k)]) = info (branchList t b ! k)"
  by (simp add: fieldsOf_def getAtom_append)

lemma sib_valid:
  "getAtom (root m) par = Some t \<Longrightarrow> k < length (branchList t b) \<Longrightarrow>
   getAtom (root m) (par @ [(b, k)]) \<noteq> None"
  by (simp add: getAtom_append)

lemma sib_offset_mono:
  assumes "getAtom (root m) par = Some t" and "k < k'" and "k' < length (branchList t b)"
  shows "offsetOf m (Some (par @ [(b, k)])) < offsetOf m (Some (par @ [(b, k')]))"
  using assms(2,3)
proof (induction k')
  case 0
  then show ?case by simp
next
  case (Suc k')
  from precedes_next_sibling [OF assms(1), of k' b] Suc.prems(2)
  have s: "offsetOf m (Some (par @ [(b, k')])) < offsetOf m (Some (par @ [(b, Suc k')]))"
    by (simp add: precedes_def offsetOf_def atoms_def)
  show ?case
  proof (cases "k = k'")
    case True
    with s show ?thesis by simp
  next
    case False
    with Suc have "offsetOf m (Some (par @ [(b, k)])) < offsetOf m (Some (par @ [(b, k')]))" by simp
    with s show ?thesis by simp
  qed
qed

lemma sib_fenceLevel:
  "getAtom (root m) par = Some t \<Longrightarrow> k < length (branchList t b) \<Longrightarrow>
   fenceLevel m (par @ [(b, k)]) level = level + fenceDepth [info (branchList t b ! k)]"
  by (simp add: fenceLevel_def sib_fieldsOf del: branchList.simps)

text \<open>
  The loop over a run \<open>seg\<close> of siblings that has siblings \<open>post\<close> after it: if the
  level is not 0 after any proper part of the run, and it is 0 after the whole run or
  the run is followed by a single sibling, the loop ends on the sibling after the run.
\<close>

lemma fenceForward_siblings:
  assumes "getAtom (root m) par = Some t" and "branchList t b = pre @ seg @ post"
    and "seg \<noteq> []" and "post \<noteq> []"
    and "\<forall>k. 0 < k \<and> k < length seg \<longrightarrow> level + fenceDepth (map info (take k seg)) \<noteq> 0"
    and "level + fenceDepth (map info seg) = 0 \<or> length post = 1"
  shows "fenceForward m (par @ [(b, length pre)]) level n =
     (Inr (par @ [(b, length pre + length seg)]), n + length seg)"
  using assms(2-)
proof (induction seg arbitrary: pre level n)
  case Nil
  then show ?case by simp
next
  case (Cons x seg)
  note t = assms(1)
  have br: "branchList t b = pre @ (x # seg) @ post" by fact
  have lv: "fenceLevel m (par @ [(b, length pre)]) level = level + fenceDepth [info x]"
    using sib_fenceLevel [OF t, of "length pre" b level] by (simp add: br nth_append)
  have rs: "rightSibling m (par @ [(b, length pre)]) = Some (par @ [(b, Suc (length pre))])"
    using Cons.prems(3) by (simp add: sib_rightSibling [OF t] br)
  have il: "isLastSibling m (par @ [(b, Suc (length pre))]) = (seg = [] \<and> length post = 1)"
    using Cons.prems(3) by (cases post) (auto simp: sib_isLastSibling [OF t] br)
  show ?case
  proof (cases "seg = []")
    case True
    with Cons.prems(5) have "level + fenceDepth [info x] = 0 \<or> length post = 1" by simp
    then show ?thesis using True by (subst fenceForward.simps) (auto simp: rs il lv)
  next
    case False
    then have "1 < length (x # seg)" by (cases seg) simp_all
    with Cons.prems(4) have "level + fenceDepth (map info (take 1 (x # seg))) \<noteq> 0" by blast
    then have nz: "level + fenceDepth [info x] \<noteq> 0" by simp
    have br': "branchList t b = (pre @ [x]) @ seg @ post" using br by simp
    have c4: "\<forall>k. 0 < k \<and> k < length seg \<longrightarrow>
        (level + fenceDepth [info x]) + fenceDepth (map info (take k seg)) \<noteq> 0"
    proof (intro allI impI)
      fix k assume "0 < k \<and> k < length seg"
      then have "0 < Suc k \<and> Suc k < length (x # seg)" by simp
      with Cons.prems(4) have "level + fenceDepth (map info (take (Suc k) (x # seg))) \<noteq> 0"
        by blast
      then show "(level + fenceDepth [info x]) + fenceDepth (map info (take k seg)) \<noteq> 0"
        by simp
    qed
    have c5: "(level + fenceDepth [info x]) + fenceDepth (map info seg) = 0 \<or> length post = 1"
      using Cons.prems(5) by (auto split: if_splits)
    from Cons.IH [OF br' False Cons.prems(3) c4 c5, of "Suc n"]
    have "fenceForward m (par @ [(b, Suc (length pre))]) (level + fenceDepth [info x]) (Suc n) =
        (Inr (par @ [(b, Suc (length pre) + length seg)]), Suc n + length seg)"
      by simp
    then show ?thesis
      using False nz by (subst fenceForward.simps) (auto simp: rs il lv split: if_splits)
  qed
qed

text \<open>
  C3, as the code has it. Let a branch \<open>b\<close> of an atom \<open>par\<close> anywhere in the tree
  hold, after a part \<open>pre\<close> that is not empty, an open fence, a balanced run \<open>body\<close>
  of siblings (with whatever children), a close fence (which therefore matches the open
  fence), and the siblings \<open>rest\<close>; the sequence \<^verbatim>\<open>( a ( b ) c )\<close> is the case where
  \<open>body\<close> is \<^verbatim>\<open>a ( b ) c\<close>. Let the cursor be collapsed just before the open fence:
  on its left sibling, the fence taking the next offset. Then \<^verbatim>\<open>skip(forward)\<close>
  succeeds and announces the move, and the cursor ends collapsed
  \<^item> just after the matching close fence, at the offset of that fence, if a sibling
    follows it: the loop has run until the nesting level was back to 0;
  \<^item> just before the matching close fence, at the offset of its left sibling (the last
    atom of \<open>body\<close>, or the open fence if \<open>body\<close> is empty), if that fence is the
    last atom of the branch: the loop has stopped at the last sibling.
\<close>

theorem skip_fence_balance:
  assumes own: "getAtom (root m) par = Some t"
    and br: "branchList t b = pre @ opn # body @ cls # rest"
    and pre: "pre \<noteq> []"
    and cur: "at m (position m) = Some (par @ [(b, length pre - 1)])" "anchor m = position m"
    and nxt: "at m (position m + 1) = Some (par @ [(b, length pre)])"
    and opn: "atype (info opn) = ''mopen''" "aclass (info opn) \<noteq> TextAtom"
      "aclass (info opn) \<noteq> CommandAtom"
    and cls: "atype (info cls) = ''mclose''"
    and bal: "balanced (map info body)"
  shows "(rest \<noteq> [] \<longrightarrow>
           skip e m Forward False =
             Some (Inr (True,
               announce
                 (m\<lparr>position := offsetOf m (Some (par @ [(b, length pre + length body + 1)])),
                     anchor := offsetOf m (Some (par @ [(b, length pre + length body + 1)]))\<rparr>)
                 ''move'' (Some (position m))))) \<and>
         (rest = [] \<longrightarrow>
           skip e m Forward False =
             Some (Inr (True,
               announce
                 (m\<lparr>position := offsetOf m (Some (par @ [(b, length pre + length body)])),
                     anchor := offsetOf m (Some (par @ [(b, length pre + length body)]))\<rparr>)
                 ''move'' (Some (position m)))))"
proof -
  define j where "j = length pre"
  define xs where "xs = branchList t b"
  have len: "length xs = j + length body + 2 + length rest" by (simp add: xs_def br j_def)
  have j0: "0 < j" using pre by (simp add: j_def)
  have xj: "xs ! j = opn" by (simp add: xs_def br j_def nth_append)
  have fo: "fieldsOf m (par @ [(b, j)]) = info opn"
    using sib_fieldsOf [OF own, of j b] xj len by (simp add: xs_def)
  have rsl: "rightSibling m (par @ [(b, j - 1)]) = Some (par @ [(b, j)])"
    using j0 len by (simp add: sib_rightSibling [OF own] xs_def [symmetric])
  have start: "skipStart m Forward = Inr (Some (par @ [(b, j)]))"
    using cur(1) nxt rsl by (simp add: skipStart_def j_def)
  have pref: "\<And>k. 0 < k \<Longrightarrow> k \<le> Suc (length body) \<Longrightarrow>
      0 + fenceDepth (map info (take k (opn # body @ [cls]))) \<noteq> 0"
  proof -
    fix k :: nat assume k: "0 < k" "k \<le> Suc (length body)"
    then obtain k' where k': "k = Suc k'" "k' \<le> length body" by (cases k) auto
    from balanced_take [OF bal, of k'] k'(2)
    show "0 + fenceDepth (map info (take k (opn # body @ [cls]))) \<noteq> 0"
      by (simp add: k' opn take_map)
  qed
  have pref': "\<And>k. 0 < k \<Longrightarrow> k \<le> length body \<Longrightarrow>
      0 + fenceDepth (map info (take k (opn # body))) \<noteq> 0"
  proof -
    fix k :: nat assume k: "0 < k" "k \<le> length body"
    then obtain k' where k': "k = Suc k'" "k' \<le> length body" by (cases k) auto
    from balanced_take [OF bal, of k'] k'(2)
    show "0 + fenceDepth (map info (take k (opn # body))) \<noteq> 0"
      by (simp add: k' opn take_map)
  qed
  have full: "0 + fenceDepth (map info (opn # body @ [cls])) = 0"
    using bal by (simp add: fenceDepth_append balanced_def opn cls)
  have A: "rest \<noteq> [] \<Longrightarrow>
      fenceForward m (par @ [(b, j)]) 0 0 = (Inr (par @ [(b, j + length body + 2)]), length body + 2)"
  proof -
    assume r: "rest \<noteq> []"
    have br': "branchList t b = pre @ (opn # body @ [cls]) @ rest" using br by simp
    from fenceForward_siblings [OF own br' _ r _ disjI1 [OF full], of 0] pref
    show ?thesis by (simp add: j_def)
  qed
  have B: "rest = [] \<Longrightarrow>
      fenceForward m (par @ [(b, j)]) 0 0 = (Inr (par @ [(b, j + length body + 1)]), length body + 1)"
  proof -
    assume r: "rest = []"
    have br': "branchList t b = pre @ (opn # body) @ [cls]" using br r by simp
    have "length [cls] = 1" by simp
    from fenceForward_siblings [OF own br' _ _ _ disjI2 [OF this], of 0 0] pref'
    show ?thesis by (simp add: j_def)
  qed
  have offA: "rest \<noteq> [] \<Longrightarrow>
      skipOffset e m Forward (par @ [(b, j)]) =
        Some (Inr (m, Some (offsetOf m (Some (par @ [(b, j + length body + 1)])))), length body + 2)"
    using opn by (simp add: skipOffset_def fo A sib_leftSibling)
  have offB: "rest = [] \<Longrightarrow>
      skipOffset e m Forward (par @ [(b, j)]) =
        Some (Inr (m, Some (offsetOf m (Some (par @ [(b, j + length body)])))), length body + 1)"
    using opn by (simp add: skipOffset_def fo B sib_leftSibling)
  have pos: "position m = offsetOf m (Some (par @ [(b, j - 1)]))"
    using at_offsetOf_inverse [OF cur(1)] by (simp add: j_def)
  have land: "\<And>k. j \<le> k \<Longrightarrow> k < length xs \<Longrightarrow>
      offsetOf m (Some (par @ [(b, k)])) \<noteq> position m \<and>
      setPosition m (offsetOf m (Some (par @ [(b, k)]))) =
        m\<lparr>position := offsetOf m (Some (par @ [(b, k)])),
           anchor := offsetOf m (Some (par @ [(b, k)]))\<rparr>"
  proof -
    fix k assume k: "j \<le> k" "k < length xs"
    from sib_offset_mono [OF own, of "j - 1" k b] k j0
    have lt: "position m < offsetOf m (Some (par @ [(b, k)]))" by (simp add: pos xs_def)
    from offsetOf_valid [of "par @ [(b, k)]" m] sib_valid [OF own, of k b] k(2)
    have "at m (offsetOf m (Some (par @ [(b, k)]))) = Some (par @ [(b, k)])"
      by (simp add: xs_def)
    from at_in_range [OF this] lt show "offsetOf m (Some (par @ [(b, k)])) \<noteq> position m \<and>
      setPosition m (offsetOf m (Some (par @ [(b, k)]))) =
        m\<lparr>position := offsetOf m (Some (par @ [(b, k)])),
           anchor := offsetOf m (Some (par @ [(b, k)]))\<rparr>"
      by (simp add: setPosition_in_range)
  qed
  have RA: "rest \<noteq> [] \<Longrightarrow> skip e m Forward False =
      Some (Inr (True, announce
                 (m\<lparr>position := offsetOf m (Some (par @ [(b, j + length body + 1)])),
                     anchor := offsetOf m (Some (par @ [(b, j + length body + 1)]))\<rparr>)
                 ''move'' (Some (position m))))"
    using cur(2) land [of "j + length body + 1"] len
    by (simp add: skip_def skipWalk_def collapseSelection_def start offA skipFinish_def)
  have RB: "rest = [] \<Longrightarrow> skip e m Forward False =
      Some (Inr (True, announce
                 (m\<lparr>position := offsetOf m (Some (par @ [(b, j + length body)])),
                     anchor := offsetOf m (Some (par @ [(b, j + length body)]))\<rparr>)
                 ''move'' (Some (position m))))"
    using cur(2) land [of "j + length body"] len
    by (simp add: skip_def skipWalk_def collapseSelection_def start offB skipFinish_def)
  from RA RB show ?thesis unfolding j_def by blast
qed

text \<open>
  Four instances. With the cursor at offset 0: on \<^verbatim>\<open>( a ( b ) c ) d\<close> after the
  sentinel of the root, where the outer close fence has offset 7, the cursor lands at
  offset 7, just after that fence; on \<^verbatim>\<open>( a ( b ) c )\<close> it lands at offset 6, just
  before that fence; on \<^verbatim>\<open>( x^2 ) y\<close>, where the close fence is the third sibling
  after the sentinel and has offset 5, it lands at offset 5. In the numerator
  \<^verbatim>\<open>( a ) b\<close> of a fraction, with the cursor at offset 1 on the sentinel of the
  numerator, the cursor lands at offset 4, the offset of the close fence.
\<close>

theorem skip_fence_balance_witness:
  "balanced (map info [mathAtom ''mord'' ''a'', mathAtom ''mopen'' ''('', mathAtom ''mord'' ''b'',
                       mathAtom ''mclose'' '')'', mathAtom ''mord'' ''c'']) \<and>
   skip (mkEnv True True 1 [] None)
     (mkModel (map leaf (fenceInfos (mkInfo ''mord'' ''math'' ''a'' PlainAtom)
        (mkInfo ''mord'' ''math'' ''b'' PlainAtom) (mkInfo ''mord'' ''math'' ''c'' PlainAtom) @
        [mkInfo ''mord'' ''math'' ''d'' PlainAtom])) 0)
     Forward False =
   Some (Inr (True, (mkModel (map leaf (fenceInfos (mkInfo ''mord'' ''math'' ''a'' PlainAtom)
        (mkInfo ''mord'' ''math'' ''b'' PlainAtom) (mkInfo ''mord'' ''math'' ''c'' PlainAtom) @
        [mkInfo ''mord'' ''math'' ''d'' PlainAtom])) 7)
                        \<lparr>announced := [(''move'', Some 0)]\<rparr>)) \<and>
   skip (mkEnv True True 1 [] None)
     (mkModel (map leaf (fenceInfos (mkInfo ''mord'' ''math'' ''a'' PlainAtom)
        (mkInfo ''mord'' ''math'' ''b'' PlainAtom) (mkInfo ''mord'' ''math'' ''c'' PlainAtom))) 0)
     Forward False =
   Some (Inr (True, (mkModel (map leaf (fenceInfos (mkInfo ''mord'' ''math'' ''a'' PlainAtom)
        (mkInfo ''mord'' ''math'' ''b'' PlainAtom) (mkInfo ''mord'' ''math'' ''c'' PlainAtom))) 6)
                        \<lparr>announced := [(''move'', Some 0)]\<rparr>)) \<and>
   balanced (map info [Atom (mkInfo ''mord'' ''math'' ''x'' PlainAtom) [] [] []
                         [mathFirst, mathAtom ''mord'' ''2''] []]) \<and>
   offsetOf (mkModel docFenceSup 0) (Some [(Body, 3)]) = 5 \<and>
   skip (mkEnv True True 1 [] None) (mkModel docFenceSup 0) Forward False =
     Some (Inr (True, (mkModel docFenceSup 5)\<lparr>announced := [(''move'', Some 0)]\<rparr>)) \<and>
   offsetOf (mkModel docFracFence 1) (Some [(Body, 1), (Above, 3)]) = 4 \<and>
   skip (mkEnv True True 1 [] None) (mkModel docFracFence 1) Forward False =
     Some (Inr (True, (mkModel docFracFence 4)\<lparr>announced := [(''move'', Some 1)]\<rparr>))"
proof -
  let ?q = "mkModel docFracFence 1"
  let ?G = "Atom (mkInfo ''genfrac'' ''math'' [] PlainAtom)
        [mathFirst, mathAtom ''mopen'' ''('', mathAtom ''mord'' ''a'', mathAtom ''mclose'' '')'',
         mathAtom ''mord'' ''b''] [] [] [] []"
  let ?a = "mkInfo ''mord'' ''math'' ''a'' PlainAtom" and ?b = "mkInfo ''mord'' ''math'' ''b'' PlainAtom"
    and ?c = "mkInfo ''mord'' ''math'' ''c'' PlainAtom" and ?d = "mkInfo ''mord'' ''math'' ''d'' PlainAtom"
    and ?e = "mkEnv True True 1 [] None"
  let ?A = "mathAtom ''mord'' ''a''" and ?B = "mathAtom ''mord'' ''b''"
    and ?C = "mathAtom ''mord'' ''c''" and ?D = "mathAtom ''mord'' ''d''"
    and ?O = "mathAtom ''mopen'' ''(''" and ?X = "mathAtom ''mclose'' '')''"
    and ?Y = "mathAtom ''mord'' ''y''"
    and ?S = "Atom (mkInfo ''mord'' ''math'' ''x'' PlainAtom) [] [] []
                [mathFirst, mathAtom ''mord'' ''2''] []"
  let ?body = "[?A, ?O, ?B, ?X, ?C]"
  let ?m = "mkModel (map leaf (fenceInfos ?a ?b ?c @ [?d])) 0"
  let ?n = "mkModel (map leaf (fenceInfos ?a ?b ?c)) 0"
  let ?k = "mkModel docFenceSup 0"
  have bal: "balanced (map info ?body)" "balanced (map info [?S])" by code_simp+
  have own: "getAtom (root ?m) [] = Some (root ?m)" "getAtom (root ?n) [] = Some (root ?n)"
    "getAtom (root ?k) [] = Some (root ?k)"
    by simp_all
  have br: "branchList (root ?m) Body = [mathFirst] @ ?O # ?body @ ?X # [?D]"
    "branchList (root ?n) Body = [mathFirst] @ ?O # ?body @ ?X # []"
    "branchList (root ?k) Body = [mathFirst] @ ?O # [?S] @ ?X # [?Y]"
    by (simp_all add: mkModel_def fenceInfos_def mathFirst_def mathAtom_def docFenceSup_def)
  have h: "[mathFirst] \<noteq> []" "atype (info ?O) = ''mopen''" "aclass (info ?O) \<noteq> TextAtom"
    "aclass (info ?O) \<noteq> CommandAtom" "atype (info ?X) = ''mclose''"
    by (simp_all add: mkInfo_def mathAtom_def leaf_def)
  have cm: "at ?m (position ?m) = Some ([] @ [(Body, length [mathFirst] - 1)])"
    "anchor ?m = position ?m" "at ?m (position ?m + 1) = Some ([] @ [(Body, length [mathFirst])])"
    by code_simp+
  have cn: "at ?n (position ?n) = Some ([] @ [(Body, length [mathFirst] - 1)])"
    "anchor ?n = position ?n" "at ?n (position ?n + 1) = Some ([] @ [(Body, length [mathFirst])])"
    by code_simp+
  have ck: "at ?k (position ?k) = Some ([] @ [(Body, length [mathFirst] - 1)])"
    "anchor ?k = position ?k" "at ?k (position ?k + 1) = Some ([] @ [(Body, length [mathFirst])])"
    by code_simp+
  have balq: "balanced (map info [?A])" by code_simp
  have ownq: "getAtom (root ?q) [(Body, 1)] = Some ?G"
    by (simp add: mkModel_def docFracFence_def)
  have brq: "branchList ?G Above = [mathFirst] @ ?O # [?A] @ ?X # [mathAtom ''mord'' ''b'']"
    by simp
  have cq: "at ?q (position ?q) = Some ([(Body, 1)] @ [(Above, length [mathFirst] - 1)])"
    "anchor ?q = position ?q"
    "at ?q (position ?q + 1) = Some ([(Body, 1)] @ [(Above, length [mathFirst])])"
    by code_simp+
  have oq: "offsetOf ?q
      (Some ([(Body, 1)] @ [(Above, length [mathFirst] + length [?A] + 1)])) = 4"
    "offsetOf ?q (Some [(Body, 1), (Above, 3)]) = 4"
    by code_simp+
  note T4 = skip_fence_balance [OF ownq brq h(1) cq h(2-5) balq, of ?e]
  have 4: "skip ?e ?q Forward False =
      Some (Inr (True, (mkModel docFracFence 4)\<lparr>announced := [(''move'', Some 1)]\<rparr>))"
    using T4 unfolding oq(1) by (simp add: mkModel_def announce_def)
  have o: "offsetOf ?m (Some ([] @ [(Body, length [mathFirst] + length ?body + 1)])) = 7"
    "offsetOf ?n (Some ([] @ [(Body, length [mathFirst] + length ?body)])) = 6"
    "offsetOf ?k (Some ([] @ [(Body, length [mathFirst] + length [?S] + 1)])) = 5"
    "offsetOf ?k (Some [(Body, 3)]) = 5"
    by code_simp+
  note T1 = skip_fence_balance [OF own(1) br(1) h(1) cm h(2-5) bal(1), of ?e]
  note T2 = skip_fence_balance [OF own(2) br(2) h(1) cn h(2-5) bal(1), of ?e]
  note T3 = skip_fence_balance [OF own(3) br(3) h(1) ck h(2-5) bal(2), of ?e]
  have 1: "skip ?e ?m Forward False =
      Some (Inr (True, (mkModel (map leaf (fenceInfos ?a ?b ?c @ [?d])) 7)
                         \<lparr>announced := [(''move'', Some 0)]\<rparr>))"
    using T1 unfolding o(1) by (simp add: mkModel_def announce_def)
  have 2: "skip ?e ?n Forward False =
      Some (Inr (True, (mkModel (map leaf (fenceInfos ?a ?b ?c)) 6)
                         \<lparr>announced := [(''move'', Some 0)]\<rparr>))"
    using T2 unfolding o(2) by (simp add: mkModel_def announce_def)
  have 3: "skip ?e ?k Forward False =
      Some (Inr (True, (mkModel docFenceSup 5)\<lparr>announced := [(''move'', Some 0)]\<rparr>))"
    using T3 unfolding o(3) by (simp add: mkModel_def announce_def)
  from bal 1 2 3 4 o(4) oq(2) show ?thesis by blast
qed

text \<open>
  C3 as the spec states it fails as soon as an atom follows the outer close fence. In
  \<^verbatim>\<open>( a ( b ) c ) d\<close>, with the cursor at offset 0 just before the outer open fence
  (offset 1), the matching close fence is at offset 7; \<^verbatim>\<open>skip(forward)\<close> puts the
  cursor at offset 7, after that fence, and not at offset 6, just before it.
\<close>

theorem skip_fence_balance_counterexample:
  "map atype (fenceInfos (mkInfo ''mord'' ''math'' ''a'' PlainAtom)
        (mkInfo ''mord'' ''math'' ''b'' PlainAtom) (mkInfo ''mord'' ''math'' ''c'' PlainAtom) @
        [mkInfo ''mord'' ''math'' ''d'' PlainAtom]) =
     [''first'', ''mopen'', ''mord'', ''mopen'', ''mord'', ''mclose'', ''mord'', ''mclose'',
      ''mord''] \<and>
   skip (mkEnv True True 1 [] None)
     (mkModel (map leaf (fenceInfos (mkInfo ''mord'' ''math'' ''a'' PlainAtom)
        (mkInfo ''mord'' ''math'' ''b'' PlainAtom) (mkInfo ''mord'' ''math'' ''c'' PlainAtom) @
        [mkInfo ''mord'' ''math'' ''d'' PlainAtom])) 0)
     Forward False =
   Some (Inr (True, (mkModel (map leaf (fenceInfos (mkInfo ''mord'' ''math'' ''a'' PlainAtom)
        (mkInfo ''mord'' ''math'' ''b'' PlainAtom) (mkInfo ''mord'' ''math'' ''c'' PlainAtom) @
        [mkInfo ''mord'' ''math'' ''d'' PlainAtom])) 7)
                        \<lparr>announced := [(''move'', Some 0)]\<rparr>))"
  by code_simp

subsection \<open>Clearing a flag keeps the shape of the tree\<close>

lemma branchList_setBranch: "branchList (setBranch t b ys) b = ys"
  by (cases t; cases b) simp_all

lemma branchList_setInfo: "branchList (setInfo g t) b = branchList t b"
  by (cases t; cases b) simp_all

lemma children_setInfo: "children (setInfo g t) = children t"
  by (cases t) simp

lemma branchList_setBranch_other: "b' \<noteq> b \<Longrightarrow> branchList (setBranch t b ys) b' = branchList t b'"
  by (cases t; cases b; cases b') simp_all

lemma branchChildren_update:
  "children y = children (xs ! j) \<Longrightarrow> branchChildren b k (xs[j := y]) = branchChildren b k xs"
proof (induction xs arbitrary: j k)
  case Nil
  then show ?case by simp
next
  case (Cons x xs)
  then show ?case by (cases j) simp_all
qed

lemma children_setBranch:
  "branchChildren b 0 ys = branchChildren b 0 (branchList t b) \<Longrightarrow>
   children (setBranch t b ys) = children t"
  by (cases t; cases b) simp_all

lemma children_updateAt_setInfo: "children (updateAt t p (setInfo g)) = children t"
proof (induction p arbitrary: t)
  case Nil
  then show ?case by (simp add: children_setInfo)
next
  case (Cons bk p)
  obtain b k where bk: "bk = (b, k)" by (cases bk)
  show ?case
    using Cons.IH [of "branchList t b ! k"]
    by (simp add: bk children_setBranch branchChildren_update del: branchList.simps)
qed

lemma length_branchList_updateAt_setInfo:
  "map_option (\<lambda>x. length (branchList x b)) (getAtom (updateAt t p (setInfo g)) q) =
   map_option (\<lambda>x. length (branchList x b)) (getAtom t q)"
proof (induction q arbitrary: t p)
  case Nil
  show ?case
  proof (cases p)
    case Nil
    then show ?thesis by (simp add: branchList_setInfo del: branchList.simps)
  next
    case (Cons ck p')
    obtain c k where ck: "ck = (c, k)" by (cases ck)
    show ?thesis
      by (cases "c = b")
         (simp_all add: Cons ck branchList_setBranch branchList_setBranch_other
            del: branchList.simps)
  qed
next
  case (Cons bk q)
  obtain b' k' where bk: "bk = (b', k')" by (cases bk)
  show ?case
  proof (cases p)
    case Nil
    then show ?thesis by (simp add: bk branchList_setInfo del: branchList.simps)
  next
    case p: (Cons ck p')
    obtain c k where ck: "ck = (c, k)" by (cases ck)
    show ?thesis
    proof (cases "k < length (branchList t c)")
      case False
      then show ?thesis by (simp add: p ck del: branchList.simps)
    next
      case True
      show ?thesis
      proof (cases "c = b'")
        case False
        then show ?thesis
          using True by (simp add: p ck bk branchList_setBranch_other del: branchList.simps)
      next
        case c: True
        show ?thesis
        proof (cases "k' = k")
          case True
          with \<open>k < length (branchList t c)\<close> c Cons.IH [of "branchList t c ! k" p']
          show ?thesis by (simp add: p ck bk branchList_setBranch del: branchList.simps)
        next
          case False
          with \<open>k < length (branchList t c)\<close> c
          show ?thesis by (simp add: p ck bk branchList_setBranch del: branchList.simps)
        qed
      qed
    qed
  qed
qed

lemma atoms_clearIsSuggestion: "atoms (clearIsSuggestion m p) = atoms m"
  by (simp add: atoms_def clearIsSuggestion_def children_updateAt_setInfo)

lemma length_siblings_clearIsSuggestion:
  "length (siblings (clearIsSuggestion m p) q) = length (siblings m q)"
proof (cases "q = []")
  case True
  then show ?thesis by (simp add: siblings_def)
next
  case False
  let ?g = "\<lambda>i. i\<lparr>isSuggestion := False\<rparr>"
  from length_branchList_updateAt_setInfo [of "fst (last q)" "root m" p ?g "butlast q"]
  show ?thesis
    using False
    by (auto simp: siblings_def clearIsSuggestion_def split: option.splits)
qed

subsection \<open>The walks over offsets\<close>

lemma toEdge_step: "at m i \<noteq> None \<Longrightarrow> Suc (toEdge m d (i + dirOf d)) = toEdge m d i"
  by (auto simp: toEdge_def at_def dirOf_def split: if_splits)

lemma toEdge_le: "at m i \<noteq> None \<Longrightarrow> toEdge m d i \<le> length (atoms m)"
  by (auto simp: toEdge_def at_def split: if_splits)

lemma doWhileAt_steps:
  "snd (doWhileAt m P d i n) +
     (case fst (doWhileAt m P d i n) of Inl x \<Rightarrow> 0 | Inr j \<Rightarrow> toEdge m d j) \<le> n + toEdge m d i"
proof (induction m P d i n rule: doWhileAt.induct)
  case (1 m P d i n)
  show ?case
  proof (cases "at m i")
    case None
    then show ?thesis by (subst (1 2) doWhileAt.simps) simp
  next
    case (Some a)
    then have e: "Suc (toEdge m d (i + dirOf d)) = toEdge m d i" by (simp add: toEdge_step)
    show ?thesis
    proof (cases "at m (i + dirOf d) \<noteq> None \<and> P (fieldsOf m a)")
      case True
      with 1 [OF Some] Some e show ?thesis by (subst (1 2) doWhileAt.simps) simp
    next
      case False
      with Some e show ?thesis by (subst (1 2) doWhileAt.simps) auto
    qed
  qed
qed

lemma whileAt_steps:
  "snd (whileAt m P d i n) + toEdge m d (fst (whileAt m P d i n)) \<le> n + toEdge m d i"
proof (induction m P d i n rule: whileAt.induct)
  case (1 m P d i n)
  show ?case
  proof (cases "at m i")
    case None
    then show ?thesis by (subst (1 2) whileAt.simps) simp
  next
    case (Some a)
    then have e: "Suc (toEdge m d (i + dirOf d)) = toEdge m d i" by (simp add: toEdge_step)
    show ?thesis
    proof (cases "P (fieldsOf m a)")
      case True
      with 1 [OF Some] Some e show ?thesis by (subst (1 2) whileAt.simps) simp
    next
      case False
      with Some show ?thesis by (subst (1 2) whileAt.simps) simp
    qed
  qed
qed

lemma whileMatch_steps:
  "snd (whileMatch m P d i b n) + toEdge m d (fst (whileMatch m P d i b n)) \<le> n + toEdge m d i"
proof (induction m P d i b n rule: whileMatch.induct)
  case (1 m P d i b n)
  show ?case
  proof (cases "at m i")
    case None
    then show ?thesis by (subst (1 2) whileMatch.simps) simp
  next
    case (Some a)
    then have e: "Suc (toEdge m d (i + dirOf d)) = toEdge m d i" by (simp add: toEdge_step)
    show ?thesis
    proof (cases b)
      case True
      with 1 [OF Some] Some e show ?thesis by (subst (1 2) whileMatch.simps) simp
    next
      case False
      with Some show ?thesis by (subst (1 2) whileMatch.simps) simp
    qed
  qed
qed

lemma wordBoundaryWalk_steps: "snd (wordBoundaryWalk e m offset d) \<le> length (atoms m)"
proof (cases "at m offset")
  case None
  then show ?thesis by (simp add: wordBoundaryWalk_def)
next
  case (Some a)
  then have le: "toEdge m d offset \<le> length (atoms m)" by (simp add: toEdge_le)
  note D = doWhileAt_steps [of m _ d _ _] and W = whileAt_steps [of m _ d offset 0]
    and M = whileMatch_steps [of m _ d _ True]
  have 1: "snd (doWhileAt m P d offset 0) \<le> length (atoms m)" for P
    using D [of P offset 0] le by simp
  have 2: "snd (doWhileAt m P d (fst (whileAt m Q d offset 0)) (snd (whileAt m Q d offset 0)))
      \<le> length (atoms m)" for P Q
    using D [of P "fst (whileAt m Q d offset 0)" "snd (whileAt m Q d offset 0)"] W [of Q] le
    by simp
  have 3: "snd (whileAt m Q d offset 0) \<le> length (atoms m)" for Q
    using W [of Q] le by simp
  have 4: "snd (whileMatch m P d (fst (whileAt m Q d offset 0)) True (snd (whileAt m Q d offset 0)))
      \<le> length (atoms m)" for P Q
    using M [of P "fst (whileAt m Q d offset 0)" "snd (whileAt m Q d offset 0)"] W [of Q] le
    by simp
  show ?thesis
    using 1 [of "textAlnum e"] 2 [of textNonSpace textSpace] 3 [of textSpace]
      4 [of textSpace textNonSpace]
    by (auto simp: wordBoundaryWalk_def Some split: prod.splits sum.splits)
qed

subsection \<open>The walks over siblings\<close>

lemma rightSibling_index:
  assumes "rightSibling m p = Some q"
  shows "length (siblings m q) = length (siblings m p)" "sibIndex q = Suc (sibIndex p)"
    "Suc (sibIndex p) < length (siblings m p)"
  using assms
  by (auto simp: rightSibling_def siblings_def sibIndex_def split: if_splits option.splits)

lemma leftSibling_index:
  assumes "leftSibling m p = Some q"
  shows "length (siblings m q) = length (siblings m p)" "Suc (sibIndex q) = sibIndex p"
  using assms
  by (auto simp: leftSibling_def siblings_def sibIndex_def split: if_splits option.splits)

lemma commandLoop_steps:
  "snd (commandLoop m d atom offset n) \<le>
     n + (case atom of None \<Rightarrow> 0
          | Some p \<Rightarrow> if d = Forward then Suc (length (siblings m p) - sibIndex p)
                      else Suc (sibIndex p))"
proof (induction m d atom offset n rule: commandLoop.induct)
  case (1 m d atom offset n)
  show ?case
  proof (cases atom)
    case None
    then show ?thesis by (subst commandLoop.simps) simp
  next
    case (Some p)
    show ?thesis
    proof (cases "aclass (fieldsOf m p) = CommandAtom \<and> isLetterOrStar (avalue (fieldsOf m p))")
      case False
      with Some show ?thesis by (subst commandLoop.simps) auto
    next
      case True
      note ih = 1 [OF Some True]
      show ?thesis
      proof (cases "if d = Forward then rightSibling m p else leftSibling m p")
        case None
        with ih Some True show ?thesis by (subst commandLoop.simps) (auto split: if_splits)
      next
        case q: (Some q)
        show ?thesis
        proof (cases "d = Forward")
          case True
          with q have r: "rightSibling m p = Some q" by simp
          have "commandLoop m d atom offset n =
              commandLoop m d (Some q) (offsetOf m (Some p)) (Suc n)"
            using r Some True \<open>aclass (fieldsOf m p) = CommandAtom \<and> _\<close>
            by (subst commandLoop.simps) simp
          then show ?thesis using ih q Some True rightSibling_index [OF r] by simp
        next
          case False
          with q have l: "leftSibling m p = Some q" by simp
          have "commandLoop m d atom offset n =
              commandLoop m d (Some q) (offsetOf m (Some p)) (Suc n)"
            using l Some False \<open>aclass (fieldsOf m p) = CommandAtom \<and> _\<close>
            by (subst commandLoop.simps) simp
          then show ?thesis using ih q Some False leftSibling_index [OF l] by simp
        qed
      qed
    qed
  qed
qed

lemma fenceForward_steps:
  "sibIndex p < length (siblings m p) \<Longrightarrow>
   snd (fenceForward m p level n) \<le> n + (length (siblings m p) - sibIndex p)"
proof (induction m p level n rule: fenceForward.induct)
  case (1 m p level n)
  show ?case
  proof (cases "rightSibling m p")
    case None
    with 1(2) show ?thesis by (subst fenceForward.simps) simp
  next
    case (Some q)
    note r = rightSibling_index [OF Some]
    have i: "sibIndex q < length (siblings m q)" using r by simp
    show ?thesis
    proof (cases "\<not> isLastSibling m q \<and> fenceLevel m p level \<noteq> 0")
      case True
      have "fenceForward m p level n = fenceForward m q (fenceLevel m p level) (Suc n)"
        using Some True by (subst fenceForward.simps) simp
      with 1(1) [OF Some True i] r show ?thesis by simp
    next
      case False
      with Some 1(2) show ?thesis by (subst fenceForward.simps) auto
    qed
  qed
qed

lemma fenceBackward_steps: "snd (fenceBackward m p level n) \<le> n + Suc (sibIndex p)"
proof (induction m p level n rule: fenceBackward.induct)
  case (1 m p level n)
  show ?case
  proof (cases "leftSibling m p")
    case None
    then show ?thesis by (subst fenceBackward.simps) simp
  next
    case (Some q)
    note i = leftSibling_index(2) [OF Some]
    show ?thesis
    proof (cases "\<not> isFirstSibling m q \<and> fenceLevel m p level \<noteq> 0")
      case True
      have "fenceBackward m p level n = fenceBackward m q (fenceLevel m p level) (Suc n)"
        using Some True by (subst fenceBackward.simps) simp
      with 1 [OF Some True] i show ?thesis by simp
    next
      case False
      with Some show ?thesis by (subst fenceBackward.simps) auto
    qed
  qed
qed

lemma firstLoop_steps: "snd (firstLoop m offset atom n) \<le> n + nat offset"
proof (induction m offset atom n rule: firstLoop.induct)
  case (1 m offset atom n)
  show ?case
  proof (cases "offset > 0")
    case False
    then show ?thesis by (subst firstLoop.simps) simp
  next
    case True
    show ?thesis
    proof (cases atom)
      case None
      with True show ?thesis by (subst firstLoop.simps) simp
    next
      case (Some p)
      show ?thesis
      proof (cases "atype (fieldsOf m p) = ''first''")
        case False
        with True Some show ?thesis by (subst firstLoop.simps) simp
      next
        case f: True
        from 1 [OF True Some f] True Some f show ?thesis
          by (subst firstLoop.simps) (simp add: nat_diff_distrib)
      qed
    qed
  qed
qed

lemma suggestionLoop_steps:
  "sibIndex p < length (siblings m p) \<Longrightarrow>
   \<exists>m' i n'. suggestionLoop m (Some p) offset n = Some (m', i, n') \<and>
     n' \<le> n + (length (siblings m p) - sibIndex p)"
proof (induction "length (siblings m p) - sibIndex p" arbitrary: m p offset n)
  case 0
  then show ?case by simp
next
  case (Suc k)
  let ?m = "clearIsSuggestion m p"
  have len: "length (siblings ?m q) = length (siblings m q)" for q
    by (rule length_siblings_clearIsSuggestion)
  show ?case
  proof (cases "aclass (fieldsOf m p) = CommandAtom")
    case False
    then show ?thesis by (subst suggestionLoop.simps) simp
  next
    case True
    show ?thesis
    proof (cases "rightSibling ?m p")
      case None
      with True Suc.prems show ?thesis
        by (subst suggestionLoop.simps, simp, subst suggestionLoop.simps, simp)
    next
      case (Some q)
      note r = rightSibling_index [OF Some]
      have i: "length (siblings ?m q) = length (siblings m p)"
        "sibIndex q = Suc (sibIndex p)" "sibIndex q < length (siblings ?m q)"
        using r len [of p] by simp_all
      have "k = length (siblings ?m q) - sibIndex q"
        using i Suc(2) by simp
      from Suc(1) [OF this i(3), of "offsetOf ?m (Some p)" "Suc n"]
      obtain m' j n' where
        r: "suggestionLoop ?m (Some q) (offsetOf ?m (Some p)) (Suc n) = Some (m', j, n')"
        "n' \<le> Suc n + (length (siblings ?m q) - sibIndex q)" by blast
      have "suggestionLoop m (Some p) offset n =
          suggestionLoop ?m (Some q) (offsetOf ?m (Some p)) (Suc n)"
        using True Some by (subst suggestionLoop.simps) simp
      with r i show ?thesis by simp
    qed
  qed
qed

subsection \<open>The walks over atoms of one type\<close>

lemma backwardStep_less: "0 \<le> i \<Longrightarrow> backwardStep m i < i"
  by (simp add: backwardStep_def leftOffset_less)

lemma backwardLoop_steps:
  "\<exists>r n'. backwardLoop m ty offset nt n = Some (r, n') \<and> n' \<le> n + nat (offset + 1)"
proof (induction "nat (offset + 1)" arbitrary: offset nt n rule: less_induct)
  case less
  show ?case
  proof (cases "offset \<ge> 0 \<and> nt = Some ty")
    case False
    then show ?thesis by (subst backwardLoop.simps) auto
  next
    case True
    then have s: "backwardStep m offset < offset" by (simp add: backwardStep_less)
    show ?thesis
    proof (cases "typeAt m (backwardStep m offset)")
      case None
      have "Suc 0 \<le> nat (offset + 1)" using True by linarith
      with None True show ?thesis by (subst backwardLoop.simps) simp
    next
      case (Some t)
      have "nat (backwardStep m offset + 1) < nat (offset + 1)" using s True by simp
      from less [OF this, of "Some t" "Suc n"]
      obtain r n' where r: "backwardLoop m ty (backwardStep m offset) (Some t) (Suc n) = Some (r, n')"
        "n' \<le> Suc n + nat (backwardStep m offset + 1)" by blast
      have "backwardLoop m ty offset nt n =
          backwardLoop m ty (backwardStep m offset) (Some t) (Suc n)"
        using True Some by (subst backwardLoop.simps) simp
      moreover have "n' \<le> n + nat (offset + 1)" using r(2) s True by linarith
      ultimately show ?thesis using r(1) by simp
    qed
  qed
qed

lemma subsupLoop_steps:
  "\<exists>r n'. subsupLoop m offset n = Some (r, n') \<and>
     (case r of
        Inl x \<Rightarrow> at m offset = None \<and> n' = n
      | Inr i \<Rightarrow> offset \<le> i \<and> at m i \<noteq> None \<and> int n' + offset \<le> int n + i)"
proof (induction "nat (int (length (atoms m)) - offset)" arbitrary: offset n rule: less_induct)
  case less
  show ?case
  proof (cases "at m offset")
    case None
    then show ?thesis by (subst subsupLoop.simps) simp
  next
    case (Some a)
    show ?thesis
    proof (cases "rightSibling m a")
      case None
      with Some show ?thesis by (subst subsupLoop.simps) simp
    next
      case r: (Some r)
      show ?thesis
      proof (cases "atype (fieldsOf m r) = ''msubsup''")
        case False
        with Some r show ?thesis by (subst subsupLoop.simps) simp
      next
        case True
        let ?o = "offsetOf m (Some r)"
        from right_after [OF Some r] have o: "offset < ?o" "at m ?o = Some r" by simp_all
        then have "?o < int (length (atoms m))" by (auto simp: at_def split: if_splits)
        with o have "nat (int (length (atoms m)) - ?o) < nat (int (length (atoms m)) - offset)"
          by simp
        from less [OF this, of "Suc n"]
        obtain x n' where x: "subsupLoop m ?o (Suc n) = Some (x, n')"
          "case x of Inl x \<Rightarrow> at m ?o = None \<and> n' = Suc n
           | Inr i \<Rightarrow> ?o \<le> i \<and> at m i \<noteq> None \<and> int n' + ?o \<le> int (Suc n) + i" by blast
        have e: "subsupLoop m offset n = subsupLoop m ?o (Suc n)"
          using Some r True by (subst subsupLoop.simps) simp
        from x(2) o(2) obtain i where i: "x = Inr i" by (cases x) auto
        with x o e show ?thesis by auto
      qed
    qed
  qed
qed


lemma forwardLoop_steps:
  "\<exists>r n'. forwardLoop m ty offset nt n = Some (r, n') \<and>
     n' \<le> n + nat (int (length (atoms m)) - offset)"
proof (induction "nat (int (length (atoms m)) - offset)" arbitrary: offset nt n rule: less_induct)
  case less
  let ?N = "int (length (atoms m))"
  show ?case
  proof (cases "offset \<le> lastOffset m \<and> (nt = Some ty \<or> nt = Some ''msubsup'')")
    case False
    then show ?thesis by (subst forwardLoop.simps) auto
  next
    case True
    then have lt: "offset < ?N" by (simp add: lastOffset_def)
    from subsupLoop_steps [of m offset "Suc n"]
    obtain x k where x: "subsupLoop m offset (Suc n) = Some (x, k)"
      "case x of Inl e \<Rightarrow> at m offset = None \<and> k = Suc n
       | Inr i \<Rightarrow> offset \<le> i \<and> at m i \<noteq> None \<and> int k + offset \<le> int (Suc n) + i"
      by blast
    show ?thesis
    proof (cases x)
      case (Inl err)
      with x have "k = Suc n" by simp
      moreover have "Suc n \<le> n + nat (?N - offset)" using lt by linarith
      ultimately show ?thesis
        using True x(1) Inl by (subst forwardLoop.simps) simp
    next
      case (Inr i)
      with x(2) have i: "offset \<le> i" "at m i \<noteq> None" "int k + offset \<le> int (Suc n) + i"
        by simp_all
      then have iN: "i < ?N" by (auto simp: at_def split: if_splits)
      then have "nat (?N - (i + 1)) < nat (?N - offset)" using i(1) by linarith
      from less [OF this, of "typeAt m (i + 1)" k]
      obtain r n' where r: "forwardLoop m ty (i + 1) (typeAt m (i + 1)) k = Some (r, n')"
        "n' \<le> k + nat (?N - (i + 1))" by blast
      have "forwardLoop m ty offset nt n = forwardLoop m ty (i + 1) (typeAt m (i + 1)) k"
        using True x(1) Inr by (subst forwardLoop.simps) simp
      moreover have "n' \<le> n + nat (?N - offset)" using r(2) i iN by linarith
      ultimately show ?thesis using r(1) by simp
    qed
  qed
qed

subsection \<open>Termination of skip\<close>

lemma atoms_mem:
  assumes "p \<in> set (atoms m)"
  shows "0 \<le> offsetOf m (Some p)" "offsetOf m (Some p) < int (length (atoms m))"
    "sibIndex p < length (siblings m p)"
proof -
  show "0 \<le> offsetOf m (Some p)" using assms by (simp add: offsetOf_def indexOf_in)
  show "offsetOf m (Some p) < int (length (atoms m))"
    using indexOf_bounds [of "atoms m" p] by (simp add: offsetOf_def)
  from assms have "p \<noteq> []" "getAtom (root m) p \<noteq> None"
    by (simp_all add: atoms_def children_valid)
  from valid_sibIndex [OF this] show "sibIndex p < length (siblings m p)" by blast
qed

lemma skipStart_mem: "skipStart m d = Inr (Some p) \<Longrightarrow> p \<in> set (atoms m)"
  using at_mem [of m _ p] right_after [of m "position m" _ p]
  by (auto simp: skipStart_def split: if_splits option.splits)

lemma skipOffset_steps:
  assumes mem: "p \<in> set (atoms m)"
  shows "\<exists>r n. skipOffset e m d p = Some (r, n) \<and> n \<le> length (atoms m)"
proof -
  let ?N = "length (atoms m)"
  let ?o = "offsetOf m (Some p)"
  let ?f = "fieldsOf m p"
  note v = atoms_mem [OF mem]
  have sl: "length (siblings m p) \<le> ?N" by (rule siblings_le)
  consider (word) "aclass ?f = TextAtom"
    | (sugg) "aclass ?f = CommandAtom" "isSuggestion ?f"
    | (cmd) "aclass ?f = CommandAtom" "\<not> isSuggestion ?f"
    | (fopen) "aclass ?f \<noteq> TextAtom" "aclass ?f \<noteq> CommandAtom" "d = Forward \<and> atype ?f = ''mopen''"
    | (fclose) "aclass ?f \<noteq> TextAtom" "aclass ?f \<noteq> CommandAtom"
        "\<not> (d = Forward \<and> atype ?f = ''mopen'')" "d = Backward \<and> atype ?f = ''mclose''"
    | (bwd) "aclass ?f \<noteq> TextAtom" "aclass ?f \<noteq> CommandAtom"
        "\<not> (d = Forward \<and> atype ?f = ''mopen'')" "\<not> (d = Backward \<and> atype ?f = ''mclose'')"
        "d = Backward"
    | (fwd) "aclass ?f \<noteq> TextAtom" "aclass ?f \<noteq> CommandAtom"
        "\<not> (d = Forward \<and> atype ?f = ''mopen'')" "\<not> (d = Backward \<and> atype ?f = ''mclose'')"
        "d \<noteq> Backward"
    by blast
  then show ?thesis
  proof cases
    case word
    obtain r n where w: "wordBoundaryWalk e m ?o d = (r, n)" by (cases "wordBoundaryWalk e m ?o d")
    with wordBoundaryWalk_steps [of e m ?o d] have "n \<le> ?N" by simp
    with word w show ?thesis by (auto simp: skipOffset_def split: sum.splits)
  next
    case sugg
    from suggestionLoop_steps [OF v(3), of ?o 0]
    obtain m' i n' where "suggestionLoop m (Some p) ?o 0 = Some (m', i, n')"
      "n' \<le> length (siblings m p) - sibIndex p" by auto
    with sugg sl show ?thesis by (auto simp: skipOffset_def)
  next
    case cmd
    let ?q = "if d = Forward then rightSibling m p else leftSibling m p"
    show ?thesis
    proof (cases ?q)
      case None
      with cmd show ?thesis by (auto simp: skipOffset_def)
    next
      case (Some q)
      obtain i n where c: "commandLoop m d (Some q) ?o 0 = (i, n)"
        by (cases "commandLoop m d (Some q) ?o 0")
      have "n \<le> ?N"
      proof (cases "d = Forward")
        case True
        with Some have "rightSibling m p = Some q" by simp
        from rightSibling_index [OF this] commandLoop_steps [of m d "Some q" ?o 0] c True sl
        show ?thesis by simp
      next
        case False
        with Some have "leftSibling m p = Some q" by simp
        from leftSibling_index [OF this] commandLoop_steps [of m d "Some q" ?o 0] c False sl v(3)
        show ?thesis by simp
      qed
      with cmd Some c show ?thesis by (auto simp: skipOffset_def)
    qed
  next
    case fopen
    obtain r n where w: "fenceForward m p 0 0 = (r, n)" by (cases "fenceForward m p 0 0")
    with fenceForward_steps [OF v(3), of 0 0] sl have "n \<le> ?N" by simp
    with fopen w show ?thesis by (auto simp: skipOffset_def split: sum.splits)
  next
    case fclose
    obtain r n where w: "fenceBackward m p 0 0 = (r, n)" by (cases "fenceBackward m p 0 0")
    with fenceBackward_steps [of m p 0 0] sl v(3) have "n \<le> ?N" by simp
    with fclose w show ?thesis by (auto simp: skipOffset_def split: sum.splits)
  next
    case bwd
    show ?thesis
    proof (cases "atype ?f = ''first''")
      case True
      obtain r n where w: "firstLoop m ?o (Some p) 0 = (r, n)"
        by (cases "firstLoop m ?o (Some p) 0")
      with firstLoop_steps [of m ?o "Some p" 0] v(2) have "n \<le> ?N" by simp
      with bwd True w show ?thesis by (auto simp: skipOffset_def split: sum.splits)
    next
      case False
      let ?s = "(if atype ?f = ''msubsup'' then leftOffset m ?o else ?o) - 1"
      let ?ty = "if aclass ?f = SubsupAtom then baseType ?f else atype ?f"
      from backwardLoop_steps [of m ?ty ?s "typeAt m ?s" 0]
      obtain r n where w: "backwardLoop m ?ty ?s (typeAt m ?s) 0 = Some (r, n)"
        "n \<le> nat (?s + 1)" by auto
      have "?s + 1 \<le> ?o" using leftOffset_less [OF v(1), of m] by auto
      with w(2) v(2) have "n \<le> ?N" by linarith
      with bwd False w(1) show ?thesis
        by (cases r) (auto simp: skipOffset_def Let_def)
    qed
  next
    case fwd
    from forwardLoop_steps [of m "atype ?f" ?o "typeAt m ?o" 0]
    obtain r n where w: "forwardLoop m (atype ?f) ?o (typeAt m ?o) 0 = Some (r, n)"
      "n \<le> nat (int ?N - ?o)" by auto
    with v(1) have "n \<le> ?N" by linarith
    with fwd w(1) show ?thesis
      by (cases r) (auto simp: skipOffset_def Let_def)
  qed
qed

text \<open>
  C4. For every tree of atoms (a tree of the type \<open>atom\<close> has no cycle), every cursor,
  every direction and both values of the extension flag, \<^verbatim>\<open>skip\<close> terminates: its walk
  has a result, which is a return value with the new state or an exception, and its loops
  make at most \<open>lastOffset + 1\<close> iterations in all.
\<close>

theorem skip_terminates:
  "\<exists>r n. skipWalk e m d ext = Some (r, n) \<and> int n \<le> lastOffset m + 1"
proof -
  define m1 where "m1 = (if \<not> ext then snd (collapseSelection m d) else m)"
  have r: "root m1 = root m" by (simp add: m1_def collapseSelection_def Let_def)
  have a: "atoms m1 = atoms m" by (rule same_root(1) [OF r])
  show ?thesis
  proof (cases "skipStart m1 d")
    case (Inl x)
    then show ?thesis by (simp add: skipWalk_def m1_def [symmetric] lastOffset_def)
  next
    case (Inr s)
    show ?thesis
    proof (cases s)
      case None
      with Inr show ?thesis by (simp add: skipWalk_def m1_def [symmetric] lastOffset_def)
    next
      case (Some p)
      with Inr have "p \<in> set (atoms m1)" by (simp add: skipStart_mem)
      from skipOffset_steps [OF this, of e d]
      obtain x n where x: "skipOffset e m1 d p = Some (x, n)" "n \<le> length (atoms m)"
        using a by auto
      then have "\<exists>r. skipWalk e m d ext = Some (r, n)"
        using Inr Some
        by (auto simp: skipWalk_def m1_def [symmetric] Let_def split: sum.splits option.splits)
      with x(2) show ?thesis by (auto simp: lastOffset_def)
    qed
  qed
qed

theorem skip_terminates_witness:
  "\<exists>r n. skipWalk (mkEnv True True 1 [] None) (mkModel (textRun ''blue yellow'') 0) Forward False =
      Some (r, n) \<and> int n \<le> lastOffset (mkModel (textRun ''blue yellow'') 0) + 1"
  by (rule skip_terminates)

text \<open>
  A walk that ends in an exception: forward from before an open fence that is the last
  atom of its branch, the fence loop reads \<^verbatim>\<open>isLastSibling\<close> of a right sibling that
  does not exist, after one iteration.
\<close>

lemma skip_fence_last_sibling:
  "skipWalk (mkEnv True True 1 [] None) (mkModel [mathFirst, mathAtom ''mopen'' ''(''] 0)
     Forward False = Some (Inl TypeError, 1)"
  by code_simp

section \<open>Vertical moves, leaps and boundaries\<close>

subsection \<open>Moving up into a new branch\<close>

lemma getAtom_updateAt: "getAtom t p = Some x \<Longrightarrow> getAtom (updateAt t p f) p = Some (f x)"
proof (induction p arbitrary: t)
  case Nil
  then show ?case by simp
next
  case (Cons bk p)
  obtain b k where bk: "bk = (b, k)" by (cases bk)
  from Cons.prems have k: "k < length (branchList t b)"
    and g: "getAtom (branchList t b ! k) p = Some x"
    by (auto simp: bk split: if_splits)
  from Cons.IH [OF g] k show ?case by (simp add: bk branchList_setBranch del: branchList.simps)
qed

text \<open>
  The loop that climbs to an ancestor in a branch of a given name. What it returns is
  the atom it started from or one of its ancestors, and is in such a branch; and it
  returns the nearest one: if no atom on the way down from an atom \<open>q\<close> in such a
  branch is in one, the loop started at the end of that way returns \<open>q\<close>. If no atom
  on the way down from the root is in such a branch, it returns nothing.
\<close>

lemma findAncestor_prefix:
  "findAncestor a b = Some q \<Longrightarrow> \<exists>p s. a = Some p \<and> p = q @ s \<and> treeBranch q = Some b"
proof (induction a b rule: findAncestor.induct)
  case (1 b)
  then show ?case by simp
next
  case (2 p b)
  show ?case
  proof (cases "treeBranch p = Some b")
    case True
    with 2 show ?thesis by simp
  next
    case False
    with 2 obtain p' s where "parent p = Some p'" "p' = q @ s" by auto
    then have "p \<noteq> []" "butlast p = q @ s"
      by (auto simp: parent_def split: if_splits)
    then have "p = q @ (s @ [last p])"
      using append_butlast_last_id [of p] by simp
    with 2 False show ?thesis by auto
  qed
qed

lemma findAncestor_nearest:
  "treeBranch q = Some b \<Longrightarrow> b \<notin> fst ` set s \<Longrightarrow> findAncestor (Some (q @ s)) b = Some q"
proof (induction s rule: rev_induct)
  case Nil
  then show ?case by simp
next
  case (snoc x s)
  have "treeBranch (q @ s @ [x]) = Some (fst x)" by (simp add: treeBranch_def)
  moreover have "parent (q @ s @ [x]) = Some (q @ s)" by (simp add: parent_def butlast_append)
  ultimately show ?case using snoc by auto
qed


text \<open>
  C7. Let \<^verbatim>\<open>moveUpward\<close> be called without extension. Let \<open>atom\<close> be the atom at the
  cursor (the start of the selection) or one of its ancestors, and \<open>inner\<close> the way down
  from \<open>atom\<close> to the atom at the cursor; let \<open>atom\<close> be in a branch \<^verbatim>\<open>below\<close> and no
  atom on the way down be in one, so that \<open>atom\<close> is the nearest ancestor in such a
  branch; and let its owner have no branch \<^verbatim>\<open>above\<close>. Then the call succeeds; the tree
  is the former one with the branch \<^verbatim>\<open>above\<close> created on the owner; that branch holds
  one atom, its \<^verbatim>\<open>first\<close> sentinel, which is therefore its last atom; and the cursor is
  collapsed at the offset of that atom, which the new flattening maps back to it. The
  move is announced.
\<close>

theorem moveUpward_creates_branch:
  assumes cur: "at (snd (collapseSelection m Backward))
                   (position (snd (collapseSelection m Backward))) = Some (atom @ inner)"
    and below: "treeBranch atom = Some Below"
    and nearest: "Below \<notin> fst ` set inner"
    and own: "parent atom = Some owner"
    and none: "branch (snd (collapseSelection m Backward)) owner Above = None"
  shows "\<exists>m'. moveUpward e m False = Inr (True, m') \<and>
     root m' = root (createBranch (snd (collapseSelection m Backward)) owner Above) \<and>
     branch m' owner Above = Some [owner @ [(Above, 0)]] \<and>
     atype (fieldsOf m' (owner @ [(Above, 0)])) = ''first'' \<and>
     position m' = offsetOf m' (Some (owner @ [(Above, 0)])) \<and>
     anchor m' = position m' \<and>
     at m' (position m') = Some (owner @ [(Above, 0)]) \<and>
     announced m' = announced m @ [(''move up'', None)]"
proof -
  define m1 where "m1 = snd (collapseSelection m Backward)"
  define m2 where "m2 = createBranch m1 owner Above"
  define new where "new = owner @ [(Above, 0 :: nat)]"
  define m' where "m' = announce (setPosition m2 (offsetOf m2 (Some new))) ''move up'' None"
  have p: "at m1 (position m1) = Some (atom @ inner)" using cur by (simp add: m1_def)
  have anc: "findAncestor (at m1 (position m1)) Below = Some atom"
    unfolding p by (rule findAncestor_nearest [OF below nearest])
  from at_valid [OF p] have "getAtom (root m1) (atom @ inner) \<noteq> None" by simp
  then have "getAtom (root m1) atom \<noteq> None" by (auto simp: getAtom_append split: option.splits)
  moreover from own have "atom = owner @ [last atom]" by (auto simp: parent_def split: if_splits)
  ultimately obtain x where x: "getAtom (root m1) owner = Some x"
    by (metis getAtom_append option.case_eq_if option.exhaust_sel)
  from none [folded m1_def] have e: "branchList x Above = []"
    using x by (simp add: branch_def subtree_def Let_def del: branchList.simps split: if_splits)
  have g2: "getAtom (root m2) owner = Some (setBranch x Above [firstAtom (amode (info x))])"
    using getAtom_updateAt [OF x] e by (simp add: m2_def createBranch_def del: branchList.simps)
  have b2: "branch m2 owner Above = Some [new]"
    using g2 by (simp add: branch_def subtree_def branchList_setBranch new_def del: branchList.simps)
  have gn: "getAtom (root m2) new = Some (firstAtom (amode (info x)))"
    using g2 by (simp add: new_def getAtom_append branchList_setBranch del: branchList.simps)
  from offsetOf_valid [of new m2] gn
  have o: "at m2 (offsetOf m2 (Some new)) = Some new" by (simp add: new_def)
  have sp: "setPosition m2 (offsetOf m2 (Some new)) =
      m2\<lparr>position := offsetOf m2 (Some new), anchor := offsetOf m2 (Some new)\<rparr>"
    using at_in_range [OF o] by (simp add: setPosition_in_range)
  have r: "root m' = root m2" by (simp add: m'_def announce_def sp)
  have "enterBranch m1 owner Above = Inr (setPosition m2 (offsetOf m2 (Some new)))"
    using none [folded m1_def] b2 by (simp add: enterBranch_def m2_def Let_def)
  then have mv: "moveUpward e m False = Inr (True, m')"
    using anc own
    by (simp add: moveUpward_def moveVertical_def Let_def m1_def [symmetric] m'_def)
  have "root m' = root (createBranch m1 owner Above)" using r by (simp add: m2_def)
  moreover have "branch m' owner Above = Some [new]"
    using b2 r by (simp add: branch_def subtree_def)
  moreover have "atype (fieldsOf m' new) = ''first''"
    using gn r by (simp add: fieldsOf_def firstAtom_def)
  moreover have "position m' = offsetOf m' (Some new)" "anchor m' = position m'"
    using same_root(10) [OF r] by (simp_all add: m'_def announce_def sp)
  moreover have "at m' (position m') = Some new"
    using o same_root(3) [OF r] by (simp add: m'_def announce_def sp)
  moreover have "announced m' = announced m @ [(''move up'', None)]"
    unfolding m'_def sp
    by (simp add: announce_def m2_def createBranch_def m1_def collapseSelection_def Let_def)
  ultimately show ?thesis using mv unfolding m1_def new_def by blast
qed

text \<open>
  Two instances. In \<^verbatim>\<open>\frac{}{\sqrt{y}}\<close> without numerator branch, with the cursor
  after \<^verbatim>\<open>y\<close> (offset 3), the atom at the cursor is in the body of the square root; the
  nearest ancestor in a branch \<^verbatim>\<open>below\<close> is the square root, one step up, and its owner
  is the fraction, which gets the new branch. In a fraction with the denominator \<^verbatim>\<open>b\<close>
  the atom at the cursor is itself in the branch \<^verbatim>\<open>below\<close>.
\<close>

theorem moveUpward_creates_branch_witness:
  "at (snd (collapseSelection (mkModel docFracSqrt 3) Backward))
      (position (snd (collapseSelection (mkModel docFracSqrt 3) Backward))) =
     Some ([(Body, 1), (Below, 1)] @ [(Body, 1)]) \<and>
   treeBranch [(Body, 1), (Below, 1)] = Some Below \<and>
   Below \<notin> fst ` set [(Body, 1 :: nat)] \<and>
   parent [(Body, 1), (Below, 1)] = Some [(Body, 1)] \<and>
   branch (snd (collapseSelection (mkModel docFracSqrt 3) Backward)) [(Body, 1)] Above = None \<and>
   (\<exists>m'. moveUpward (mkEnv True True 1 [] None) (mkModel docFracSqrt 3) False = Inr (True, m') \<and>
      branch m' [(Body, 1)] Above = Some [[(Body, 1), (Above, 0)]] \<and>
      position m' = offsetOf m' (Some [(Body, 1), (Above, 0)]) \<and>
      at m' (position m') = Some [(Body, 1), (Above, 0)]) \<and>
   at (snd (collapseSelection (mkModel docFrac 2) Backward))
      (position (snd (collapseSelection (mkModel docFrac 2) Backward))) =
     Some ([(Body, 1), (Below, 1)] @ []) \<and>
   branch (snd (collapseSelection (mkModel docFrac 2) Backward)) [(Body, 1)] Above = None \<and>
   (\<exists>m'. moveUpward (mkEnv True True 1 [] None) (mkModel docFrac 2) False = Inr (True, m') \<and>
      branch m' [(Body, 1)] Above = Some [[(Body, 1), (Above, 0)]] \<and>
      position m' = offsetOf m' (Some [(Body, 1), (Above, 0)]) \<and>
      at m' (position m') = Some [(Body, 1), (Above, 0)])"
proof -
  let ?m = "mkModel docFracSqrt 3" and ?n = "mkModel docFrac 2"
  have h: "at (snd (collapseSelection ?m Backward))
      (position (snd (collapseSelection ?m Backward))) = Some ([(Body, 1), (Below, 1)] @ [(Body, 1)])"
    "treeBranch [(Body, 1), (Below, 1)] = Some Below"
    "Below \<notin> fst ` set [(Body, 1 :: nat)]"
    "parent [(Body, 1), (Below, 1)] = Some [(Body, 1)]"
    "branch (snd (collapseSelection ?m Backward)) [(Body, 1)] Above = None"
    by code_simp+
  have g: "at (snd (collapseSelection ?n Backward))
      (position (snd (collapseSelection ?n Backward))) = Some ([(Body, 1), (Below, 1)] @ [])"
    "Below \<notin> fst ` set ([] :: aref)"
    "branch (snd (collapseSelection ?n Backward)) [(Body, 1)] Above = None"
    by code_simp+
  from moveUpward_creates_branch [OF h, of "mkEnv True True 1 [] None"]
    moveUpward_creates_branch [OF g(1) h(2) g(2) h(4) g(3), of "mkEnv True True 1 [] None"] h g
  show ?thesis by auto
qed

text \<open>
  The scenarios in full: from the denominator of a fraction without numerator the cursor
  goes to offset 1, the sentinel of the new numerator; and so it does from inside the
  square root in the denominator.
\<close>

lemma moveUpward_fraction:
  "moveUpward (mkEnv True True 1 [] None) (mkModel docFrac 2) False =
     Inr (True, (mkModel
       [mathFirst,
        Atom (mkInfo ''genfrac'' ''math'' [] PlainAtom) [mathFirst] []
          [mathFirst, mathAtom ''mord'' ''b''] [] []] 1)
       \<lparr>announced := [(''move up'', None)]\<rparr>) \<and>
   moveUpward (mkEnv True True 1 [] None) (mkModel docFracSqrt 3) False =
     Inr (True, (mkModel
       [mathFirst,
        Atom (mkInfo ''genfrac'' ''math'' [] PlainAtom) [mathFirst] []
          [mathFirst,
           Atom (mkInfo ''surd'' ''math'' [] PlainAtom) []
             [mathFirst, mathAtom ''mord'' ''y''] [] [] []] [] []] 1)
       \<lparr>announced := [(''move up'', None)]\<rparr>)"
  by code_simp

subsection \<open>Leaping out of the document\<close>

lemma leap_no_move:
  "at m (anchor m) = Some a \<Longrightarrow> atype (fieldsOf m a) \<noteq> ''placeholder'' \<Longrightarrow>
   leap e m d c = Some (leapFrom e m d c)"
  by (simp add: leap_def)

text \<open>
  C8, as the code has it. Let the cursor be anchored on an atom that is not a
  placeholder, with no placeholder and no empty branch beyond it. \<^verbatim>\<open>leap(forward)\<close>
  then calls the \<^verbatim>\<open>tabOut\<close> hook; let \<open>out\<close> be its answer and \<open>m1\<close> the model as it
  leaves it (a hook that is absent counts as the answer false, and leaves the model as
  it is). The call ends as follows. Where the answer is false, it announces the
  soft-fail and returns false. Where the answer is true, it does the same if no element
  of the page has the focus or the page has exactly one focusable element; it throws if
  an element has the focus and the page has no focusable element at all; otherwise it
  gives the focus to the next focusable element, and returns true without a
  notification, unless that element is the first one of the page: then it announces the
  soft-fail and returns false.
\<close>

theorem leap_forward_no_target:
  assumes "at m (anchor m) = Some a" and "atype (fieldsOf m a) \<noteq> ''placeholder''"
    and "filter (isLeapTarget m) (getAllAtoms m (position m + 1)) = []"
    and "(case tabOut e of None \<Rightarrow> (False, m) | Some h \<Rightarrow> h m Forward) = (out, m1)"
  shows "(\<not> out \<longrightarrow>
        leap e m Forward True = Some (Inr (False, announce m1 ''plonk'' None, None))) \<and>
     (out \<and> (activeElement e = None \<or> length (tabbable e) = 1) \<longrightarrow>
        leap e m Forward True = Some (Inr (False, announce m1 ''plonk'' None, None))) \<and>
     (out \<and> activeElement e = Some x \<and> tabbable e = [] \<longrightarrow>
        leap e m Forward True = Some (Inl TypeError)) \<and>
     (out \<and> activeElement e = Some x \<and> 1 < length (tabbable e) \<and>
      focusIndex (tabbable e) x 1 = 0 \<longrightarrow>
        leap e m Forward True =
          Some (Inr (False, announce m1 ''plonk'' None, Some (tabbable e ! 0)))) \<and>
     (out \<and> activeElement e = Some x \<and> 1 < length (tabbable e) \<and>
      focusIndex (tabbable e) x 1 \<noteq> 0 \<longrightarrow>
        leap e m Forward True =
          Some (Inr (True, m1, Some (tabbable e ! nat (focusIndex (tabbable e) x 1)))))"
  using assms by (auto simp: leap_no_move leapFrom_def leapOut_def Let_def split: option.splits)

text \<open>
  C8 as the spec states it fails in \<^verbatim>\<open>a b c\<close>, a document without any placeholder or
  empty branch, with the cursor after \<^verbatim>\<open>c\<close>: with a hook that answers true and a page
  of three focusable elements, the first of which has the focus, \<^verbatim>\<open>leap(forward)\<close>
  gives the focus to the second and returns true, and announces nothing.
\<close>

theorem leap_forward_no_target_counterexample:
  "filter (isLeapTarget (mkModel docABC 3)) (atoms (mkModel docABC 3)) = [] \<and>
   filter (isLeapTarget (mkModel docABC 3)) (getAllAtoms (mkModel docABC 3) (3 + 1)) = [] \<and>
   fst (the (tabOut (mkEnv True True 1 [10, 20, 30] (Some 10))) (mkModel docABC 3) Forward) \<and>
   leap (mkEnv True True 1 [10, 20, 30] (Some 10)) (mkModel docABC 3) Forward True =
     Some (Inr (True, mkModel docABC 3, Some 20))"
  by code_simp

theorem leap_forward_no_target_witness:
  "at (mkModel docABC 3) (anchor (mkModel docABC 3)) = Some [(Body, 3)] \<and>
   atype (fieldsOf (mkModel docABC 3) [(Body, 3)]) \<noteq> ''placeholder'' \<and>
   filter (isLeapTarget (mkModel docABC 3))
     (getAllAtoms (mkModel docABC 3) (position (mkModel docABC 3) + 1)) = [] \<and>
   leap (mkEnv True False 1 [10, 20, 30] (Some 10)) (mkModel docABC 3) Forward True =
     Some (Inr (False, announce (mkModel docABC 3) ''plonk'' None, None)) \<and>
   leap (mkEnv True True 1 [10] (Some 10)) (mkModel docABC 3) Forward True =
     Some (Inr (False, announce (mkModel docABC 3) ''plonk'' None, None)) \<and>
   leap (mkEnv True True 1 [] (Some 10)) (mkModel docABC 3) Forward True =
     Some (Inl TypeError) \<and>
   leap (mkEnv True True 1 [10, 20, 30] (Some 30)) (mkModel docABC 3) Forward True =
     Some (Inr (False, announce (mkModel docABC 3) ''plonk'' None, Some 10)) \<and>
   leap (mkEnv True True 1 [10, 20, 30] (Some 10)) (mkModel docABC 3) Forward True =
     Some (Inr (True, mkModel docABC 3, Some 20))"
proof -
  let ?m = "mkModel docABC 3"
  have h: "at ?m (anchor ?m) = Some [(Body, 3)]"
    "atype (fieldsOf ?m [(Body, 3)]) \<noteq> ''placeholder''"
    "filter (isLeapTarget ?m) (getAllAtoms ?m (position ?m + 1)) = []"
    by code_simp+
  have f: "focusIndex [10, 20, 30] 30 1 = 0" "focusIndex [10, 20, 30] 10 1 = 1" by code_simp+
  have k: "\<And>out tab els act.
      (case tabOut (mkEnv out tab 1 els act) of None \<Rightarrow> (False, ?m) | Some h \<Rightarrow> h ?m Forward) =
      (tab, ?m)"
    by (simp add: mkEnv_def)
  have 1: "leap (mkEnv True False 1 [10, 20, 30] (Some 10)) ?m Forward True =
      Some (Inr (False, announce ?m ''plonk'' None, None))"
    using leap_forward_no_target [OF h k [of True False "[10, 20, 30]" "Some 10"]] by simp
  have 2: "leap (mkEnv True True 1 [10] (Some 10)) ?m Forward True =
      Some (Inr (False, announce ?m ''plonk'' None, None))"
    using leap_forward_no_target [OF h k [of True True "[10]" "Some 10"]]
    by (simp add: mkEnv_def)
  have 3: "leap (mkEnv True True 1 [] (Some 10)) ?m Forward True = Some (Inl TypeError)"
    using leap_forward_no_target [OF h k [of True True "[]" "Some 10"], where x = 10]
    by (simp add: mkEnv_def)
  have 4: "leap (mkEnv True True 1 [10, 20, 30] (Some 30)) ?m Forward True =
      Some (Inr (False, announce ?m ''plonk'' None, Some 10))"
    using leap_forward_no_target [OF h k [of True True "[10, 20, 30]" "Some 30"], where x = 30] f
    by (simp add: mkEnv_def)
  have 5: "leap (mkEnv True True 1 [10, 20, 30] (Some 10)) ?m Forward True =
      Some (Inr (True, ?m, Some 20))"
    using leap_forward_no_target [OF h k [of True True "[10, 20, 30]" "Some 10"], where x = 10] f
    by (simp add: mkEnv_def)
  from h 1 2 3 4 5 show ?thesis by blast
qed

subsection \<open>Commands at their boundary\<close>














subsection \<open>The limit on nested scripts\<close>

text \<open>
  C10, as the code has it. \<^verbatim>\<open>moveToSuperscript\<close> first collapses the selection to its
  end. If the superscript depth at the cursor is then at least the bound
  \<^verbatim>\<open>scriptDepth[1]\<close>, it announces the soft-fail and returns false: the tree is the one
  before the call, no branch is created, and the cursor is collapsed at the end of
  the former selection, which leaves a selection that was collapsed as it was. The same
  holds of \<^verbatim>\<open>moveToSubscript\<close> with the subscript depth and \<^verbatim>\<open>scriptDepth[0]\<close>.
\<close>

theorem script_depth_limit:
  "(snd (scriptDepth e) \<le> superscriptDepth (snd (collapseSelection m Forward)) \<longrightarrow>
      moveToSuperscript e m =
        Inr (False, announce (snd (collapseSelection m Forward)) ''plonk'' None)) \<and>
   (fst (scriptDepth e) \<le> subscriptDepth (snd (collapseSelection m Forward)) \<longrightarrow>
      moveToSubscript e m =
        Inr (False, announce (snd (collapseSelection m Forward)) ''plonk'' None)) \<and>
   root (announce (snd (collapseSelection m Forward)) ''plonk'' None) = root m \<and>
   position (snd (collapseSelection m Forward)) = max (anchor m) (position m) \<and>
   anchor (snd (collapseSelection m Forward)) = max (anchor m) (position m) \<and>
   (anchor m = position m \<longrightarrow> snd (collapseSelection m Forward) = m)"
  by (auto simp: moveToSuperscript_def moveToSubscript_def Let_def collapseSelection_def
      announce_def setPosition_def)

theorem script_depth_limit_witness:
  "snd (scriptDepth (mkEnv True True 1 [] None)) \<le>
     superscriptDepth (snd (collapseSelection (mkModel docSup 2) Forward)) \<and>
   moveToSuperscript (mkEnv True True 1 [] None) (mkModel docSup 2) =
     Inr (False, announce (mkModel docSup 2) ''plonk'' None) \<and>
   fst (scriptDepth (mkEnv True True 1 [] None)) \<le>
     subscriptDepth (snd (collapseSelection (mkModel docSub 2) Forward)) \<and>
   moveToSubscript (mkEnv True True 1 [] None) (mkModel docSub 2) =
     Inr (False, announce (mkModel docSub 2) ''plonk'' None) \<and>
   anchor (mkModel docSup 2) = position (mkModel docSup 2)"
proof -
  let ?e = "mkEnv True True 1 [] None"
  have h: "snd (scriptDepth ?e) \<le> superscriptDepth (snd (collapseSelection (mkModel docSup 2) Forward))"
    "fst (scriptDepth ?e) \<le> subscriptDepth (snd (collapseSelection (mkModel docSub 2) Forward))"
    by code_simp+
  have c: "anchor (mkModel docSup 2) = position (mkModel docSup 2)"
    "anchor (mkModel docSub 2) = position (mkModel docSub 2)"
    by (simp_all add: mkModel_def)
  from script_depth_limit [of ?e "mkModel docSup 2"] script_depth_limit [of ?e "mkModel docSub 2"]
    h c show ?thesis by simp
qed

text \<open>
  C10 as stated fails on a selection that is not collapsed: in \<^verbatim>\<open>x^2\<close> with the
  selection from offset 1 to offset 2 inside the superscript and the bound 1, the call
  returns false and leaves the selection collapsed at offset 2.
\<close>

theorem script_depth_limit_counterexample:
  "snd (scriptDepth (mkEnv True True 1 [] None)) \<le>
     superscriptDepth (snd (collapseSelection ((mkModel docSup 2)\<lparr>anchor := 1\<rparr>) Forward)) \<and>
   moveToSuperscript (mkEnv True True 1 [] None) ((mkModel docSup 2)\<lparr>anchor := 1\<rparr>) =
     Inr (False, announce (mkModel docSup 2) ''plonk'' None) \<and>
   anchor ((mkModel docSup 2)\<lparr>anchor := 1\<rparr>) \<noteq> anchor (announce (mkModel docSup 2) ''plonk'' None)"
  by code_simp

end
